theory Spec2Isabelle
  imports Complex_Main "HOL-Library.Word" "HOL-Library.Monad_Syntax" "HOL-Library.Multiset"
    "HOL-Library.Sublist"
begin

section \<open>JavaScript strings and arrays\<close>

text \<open>
  A JavaScript string is a sequence of UTF-16 code units and \<open>length\<close> counts code units,
  so a text is a list of 16-bit words. The regular expressions of the source carry no
  \<open>u\<close> flag and therefore also work on code units.
\<close>

type_synonym code_unit = "16 word"
type_synonym jsstring = "code_unit list"

text \<open>
  \<open>String.prototype.trim\<close> and the class \<open>\s\<close> use the same set: WhiteSpace and
  LineTerminator of ECMAScript (TAB, LF, VT, FF, CR, SP, NBSP, U+1680, U+2000..U+200A,
  U+2028, U+2029, U+202F, U+205F, U+3000, U+FEFF).
\<close>

definition is_ws :: "code_unit \<Rightarrow> bool" where
  "is_ws c = (c = 9 \<or> c = 10 \<or> c = 11 \<or> c = 12 \<or> c = 13 \<or> c = 32 \<or> c = 160 \<or> c = 5760
     \<or> (8192 \<le> c \<and> c \<le> 8202) \<or> c = 8232 \<or> c = 8233 \<or> c = 8239 \<or> c = 8287
     \<or> c = 12288 \<or> c = 65279)"

definition trim :: "jsstring \<Rightarrow> jsstring" where
  "trim s = rev (dropWhile is_ws (rev (dropWhile is_ws s)))"

text \<open>
  \<open>slice(start, end)\<close> of strings and arrays, for integer arguments: a negative argument
  counts from the end, both are clamped to the length, and an empty span gives the
  empty result.
\<close>

definition js_slice :: "'a list \<Rightarrow> int \<Rightarrow> int \<Rightarrow> 'a list" where
  "js_slice xs start fin =
     (let len = int (length xs);
          from = (if start < 0 then max (len + start) 0 else min start len);
          to = (if fin < 0 then max (len + fin) 0 else min fin len)
      in take (nat (to - from)) (drop (nat from) xs))"

text \<open>\<open>slice(start)\<close>: the end defaults to the length.\<close>

definition js_slice_from :: "'a list \<Rightarrow> int \<Rightarrow> 'a list" where
  "js_slice_from xs start = js_slice xs start (int (length xs))"

text \<open>\<open>Array.prototype.join\<close> on an array of strings.\<close>

fun js_join :: "jsstring \<Rightarrow> jsstring list \<Rightarrow> jsstring" where
  "js_join sep [] = []"
| "js_join sep [x] = x"
| "js_join sep (x # y # ys) = x @ sep @ js_join sep (y # ys)"

text \<open>
  \<open>lastIndexOf\<close> with a search string: the positions are tried from the last one at
  which the search string fits down to 0; the result is the first position found, or
  \<open>-1\<close>.
\<close>

definition lastIndexOf :: "jsstring \<Rightarrow> jsstring \<Rightarrow> int" where
  "lastIndexOf s pat =
     (if length s < length pat then - 1
      else case find (\<lambda>k. take (length pat) (drop k s) = pat)
                  (rev [0..<Suc (length s - length pat)]) of
             None \<Rightarrow> - 1
           | Some k \<Rightarrow> int k)"

section \<open>Configuration and token estimate (types/chunking.ts)\<close>

text \<open>
  Every knob of \<open>ChunkingConfig\<close> is a count of tokens, characters or chunks, hence a
  natural number. Differences of knobs are taken in the integers, as the code does.
\<close>

record ChunkingConfig =
  maxTokensPerChunk :: nat
  minTokensPerChunk :: nat
  overlapTokens :: nat
  chunksPerGroup :: nat
  maxChunksPerGroup :: nat
  maxCharsPerChunk :: nat
  minCharsPerChunk :: nat
  overlapChars :: nat

definition DEFAULT_CHUNKING_CONFIG :: ChunkingConfig where
  "DEFAULT_CHUNKING_CONFIG =
     \<lparr> maxTokensPerChunk = 1200, minTokensPerChunk = 300, overlapTokens = 100,
       chunksPerGroup = 2, maxChunksPerGroup = 3,
       maxCharsPerChunk = 4800, minCharsPerChunk = 1200, overlapChars = 400 \<rparr>"

datatype content_type = Article | Code | Mixed

datatype group_status = Pending | Summarized | Failed

text \<open>
  \<open>ContentChunk\<close>; the optional \<open>id\<close> is \<open>chunk_id\<close>, \<open>None\<close> when undefined.
\<close>

record ContentChunk =
  chunk_id :: "nat option"
  crawled_content_id :: nat
  chunk_index :: nat
  chunk_text :: jsstring
  token_count :: nat
  chunk_type :: content_type

text \<open>
  \<open>ChunkGroup\<close>; its \<open>id\<close> and \<open>crawled_content_id\<close> are \<open>group_id\<close> and
  \<open>group_content_id\<close>.
\<close>

record ChunkGroup =
  group_id :: "nat option"
  group_content_id :: nat
  chunk_ids :: "nat list"
  group_index :: nat
  combined_text :: jsstring
  combined_tokens :: nat
  status :: group_status

text \<open>
  \<open>Math.ceil(text.length / 4)\<close>. The division is a floating-point one; a length is
  far below \<open>2^53\<close> and the divisor is a power of two, so the quotient is exact and the
  real numbers model it.
\<close>

definition estimateTokenCount :: "jsstring \<Rightarrow> nat" where
  "estimateTokenCount text = nat \<lceil>real (length text) / 4\<rceil>"

section \<open>Group builder (ContentChunkerWorker.createChunkGroups)\<close>

text \<open>One iteration of the loop body: the group built for the window that starts at \<open>i\<close>.\<close>

definition make_group :: "ChunkingConfig \<Rightarrow> ContentChunk list \<Rightarrow> nat \<Rightarrow> ChunkGroup" where
  "make_group cfg chunks i =
     (let groupChunks = js_slice chunks (int i) (int i + int (maxChunksPerGroup cfg));
          combinedText = js_join [10, 10] (map chunk_text groupChunks);
          combinedTokens = foldl (\<lambda>total chunk. total + token_count chunk) 0 groupChunks
      in \<lparr> group_id = None,
           group_content_id = crawled_content_id (chunks ! 0),
           chunk_ids = map the (filter (\<lambda>x. x \<noteq> None) (map chunk_id groupChunks)),
           group_index = i div chunksPerGroup cfg,
           combined_text = combinedText,
           combined_tokens = combinedTokens,
           status = Pending \<rparr>)"

text \<open>
  \<open>for (let i = 0; i < chunks.length; i += chunksPerGroup)\<close>. With \<open>chunksPerGroup = 0\<close>
  and a non-empty list the loop never ends: the result is \<open>None\<close>.
\<close>

partial_function (option) createChunkGroups_loop ::
  "ChunkingConfig \<Rightarrow> ContentChunk list \<Rightarrow> nat \<Rightarrow> ChunkGroup list \<Rightarrow> ChunkGroup list option" where
  "createChunkGroups_loop cfg chunks i groups =
     (if i < length chunks
      then createChunkGroups_loop cfg chunks (i + chunksPerGroup cfg)
             (groups @ [make_group cfg chunks i])
      else Some groups)"

declare createChunkGroups_loop.simps [code]

definition createChunkGroups :: "ChunkingConfig \<Rightarrow> ContentChunk list \<Rightarrow> ChunkGroup list option" where
  "createChunkGroups cfg chunks = createChunkGroups_loop cfg chunks 0 []"

section \<open>Chunk persistence (ContentChunkerWorker.saveChunks)\<close>

text \<open>
  The upsert is an external call: given the row's values it returns the row id, or
  throws (\<open>None\<close>), in which case the chunk is logged and skipped. \<open>insert_params\<close> are
  the parameters \<open>[contentId, i, chunkText, tokenCount, contentType]\<close> of one call.
\<close>

type_synonym insert_params = "nat \<times> nat \<times> jsstring \<times> nat \<times> content_type"

type_synonym chunk_insert = "nat \<Rightarrow> nat \<Rightarrow> jsstring \<Rightarrow> nat \<Rightarrow> content_type \<Rightarrow> nat option"

text \<open>
  \<open>saveChunks\<close>, from index \<open>i\<close> on. The result is the parameter lists of the calls made to
  the database, in order, and the array \<open>savedChunks\<close>.
\<close>

fun saveChunks_from ::
  "chunk_insert \<Rightarrow> nat \<Rightarrow> content_type \<Rightarrow> nat \<Rightarrow> jsstring list
     \<Rightarrow> insert_params list \<times> ContentChunk list" where
  "saveChunks_from db contentId contentType i [] = ([], [])"
| "saveChunks_from db contentId contentType i (chunkText # rest) =
     (let tokenCount = estimateTokenCount chunkText;
          params = (contentId, i, chunkText, tokenCount, contentType);
          (queries, savedChunks) = saveChunks_from db contentId contentType (Suc i) rest
      in case db contentId i chunkText tokenCount contentType of
           None \<Rightarrow> (params # queries, savedChunks)
         | Some rid \<Rightarrow>
             (params # queries,
              \<lparr> chunk_id = Some rid, crawled_content_id = contentId, chunk_index = i,
                chunk_text = chunkText, token_count = tokenCount, chunk_type = contentType \<rparr>
              # savedChunks))"

definition saveChunks ::
  "chunk_insert \<Rightarrow> nat \<Rightarrow> jsstring list \<Rightarrow> content_type
     \<Rightarrow> insert_params list \<times> ContentChunk list" where
  "saveChunks db contentId chunks contentType = saveChunks_from db contentId contentType 0 chunks"

section \<open>Boundary finder (types/chunking.ts, findTextBoundaries)\<close>

datatype boundary_type = Paragraph | Sentence | Section | CodeBlock

record TextBoundary =
  index :: nat
  btype :: boundary_type
  priority :: nat

text \<open>
  The four regular expressions are sequences of single-character atoms: a character
  class, a greedy star, a lazy star and a positive lookahead of one character
  (\<open>x+\<close> is \<open>x\<close> followed by \<open>x*\<close>). \<open>match_seq\<close> is the backtracking matcher of
  ECMAScript on such a sequence, anchored at the start of its input; it returns the
  length of the match. A greedy star first tries to take one more character and falls
  back to the rest of the pattern; a lazy star tries the rest of the pattern first.
\<close>

datatype atom =
    Cls "code_unit \<Rightarrow> bool"
  | Star "code_unit \<Rightarrow> bool"
  | LazyStar "code_unit \<Rightarrow> bool"
  | Ahead "code_unit \<Rightarrow> bool"

fun match_seq :: "atom list \<Rightarrow> jsstring \<Rightarrow> nat option" where
  "match_seq [] s = Some 0"
| "match_seq (Cls P # r) [] = None"
| "match_seq (Cls P # r) (c # cs) = (if P c then map_option Suc (match_seq r cs) else None)"
| "match_seq (Star P # r) [] = match_seq r []"
| "match_seq (Star P # r) (c # cs) =
     (if P c
      then (case match_seq (Star P # r) cs of
              Some n \<Rightarrow> Some (Suc n)
            | None \<Rightarrow> match_seq r (c # cs))
      else match_seq r (c # cs))"
| "match_seq (LazyStar P # r) [] = match_seq r []"
| "match_seq (LazyStar P # r) (c # cs) =
     (case match_seq r (c # cs) of
        Some n \<Rightarrow> Some n
      | None \<Rightarrow> (if P c then map_option Suc (match_seq (LazyStar P # r) cs) else None))"
| "match_seq (Ahead P # r) [] = None"
| "match_seq (Ahead P # r) (c # cs) = (if P c then match_seq r (c # cs) else None)"

text \<open>A regular expression is a list of alternatives, tried in order.\<close>

type_synonym regex = "atom list list"

fun match_alts :: "regex \<Rightarrow> jsstring \<Rightarrow> nat option" where
  "match_alts [] s = None"
| "match_alts (a # alts) s =
     (case match_seq a s of Some n \<Rightarrow> Some n | None \<Rightarrow> match_alts alts s)"

text \<open>
  \<open>search_from re s i\<close>: the leftmost match in the rest \<open>s\<close> of the text that starts at
  offset \<open>i\<close>, as (offset, length).
\<close>

fun search_from :: "regex \<Rightarrow> jsstring \<Rightarrow> nat \<Rightarrow> (nat \<times> nat) option" where
  "search_from re [] i = (case match_alts re [] of Some n \<Rightarrow> Some (i, n) | None \<Rightarrow> None)"
| "search_from re (c # cs) i =
     (case match_alts re (c # cs) of
        Some n \<Rightarrow> Some (i, n)
      | None \<Rightarrow> search_from re cs (Suc i))"

text \<open>\<open>RegExp.prototype.exec\<close> of a global expression whose \<open>lastIndex\<close> is given.\<close>

definition regex_exec :: "regex \<Rightarrow> jsstring \<Rightarrow> nat \<Rightarrow> (nat \<times> nat) option" where
  "regex_exec re text lastIndex =
     (if length text < lastIndex then None else search_from re (drop lastIndex text) lastIndex)"

text \<open>
  \<open>while ((match = re.exec(text)) !== null) boundaries.push(...)\<close>: \<open>emit\<close> gives the
  boundaries pushed for a match at \<open>match.index\<close> of length \<open>match[0].length\<close>; \<open>exec\<close>
  leaves \<open>lastIndex\<close> at the end of the match. An expression that matches the empty
  string would keep the loop at the same place for ever (\<open>None\<close>).
\<close>

partial_function (option) exec_loop ::
  "regex \<Rightarrow> (nat \<Rightarrow> nat \<Rightarrow> TextBoundary list) \<Rightarrow> jsstring \<Rightarrow> nat \<Rightarrow> TextBoundary list
     \<Rightarrow> TextBoundary list option" where
  "exec_loop re emit text lastIndex boundaries =
     (case regex_exec re text lastIndex of
        None \<Rightarrow> Some boundaries
      | Some (i, n) \<Rightarrow> exec_loop re emit text (i + n) (boundaries @ emit i n))"

declare exec_loop.simps [code]

definition is_line_terminator :: "code_unit \<Rightarrow> bool" where
  "is_line_terminator c = (c = 10 \<or> c = 13 \<or> c = 8232 \<or> c = 8233)"

text \<open>\<open>/\n\s*\n/g\<close>\<close>

definition paragraphRegex :: regex where
  "paragraphRegex = [[Cls (\<lambda>c. c = 10), Star is_ws, Cls (\<lambda>c. c = 10)]]"

text \<open>\<open>/\n#+\s+.+\n/g\<close>\<close>

definition sectionRegex :: regex where
  "sectionRegex =
     [[Cls (\<lambda>c. c = 10), Cls (\<lambda>c. c = 35), Star (\<lambda>c. c = 35), Cls is_ws, Star is_ws,
       Cls (\<lambda>c. \<not> is_line_terminator c), Star (\<lambda>c. \<not> is_line_terminator c),
       Cls (\<lambda>c. c = 10)]]"

text \<open>
  \<open>/(```[\s\S]*?```|<pre>[\s\S]*?<\/pre>)/g\<close>: three backticks, or the tags
  \<open><pre>\<close> and \<open></pre>\<close>, around a lazy run of any characters.
\<close>

definition codeBlockRegex :: regex where
  "codeBlockRegex =
     [[Cls (\<lambda>c. c = 96), Cls (\<lambda>c. c = 96), Cls (\<lambda>c. c = 96), LazyStar (\<lambda>c. True),
       Cls (\<lambda>c. c = 96), Cls (\<lambda>c. c = 96), Cls (\<lambda>c. c = 96)],
      [Cls (\<lambda>c. c = 60), Cls (\<lambda>c. c = 112), Cls (\<lambda>c. c = 114), Cls (\<lambda>c. c = 101),
       Cls (\<lambda>c. c = 62), LazyStar (\<lambda>c. True),
       Cls (\<lambda>c. c = 60), Cls (\<lambda>c. c = 47), Cls (\<lambda>c. c = 112), Cls (\<lambda>c. c = 114),
       Cls (\<lambda>c. c = 101), Cls (\<lambda>c. c = 62)]]"

text \<open>\<open>/[.!?]\s+(?=[A-Z])/g\<close>\<close>

definition sentenceRegex :: regex where
  "sentenceRegex =
     [[Cls (\<lambda>c. c = 46 \<or> c = 33 \<or> c = 63), Cls is_ws, Star is_ws,
       Ahead (\<lambda>c. 65 \<le> c \<and> c \<le> 90)]]"

text \<open>The array \<open>boundaries\<close> after the four loops have pushed into it, before the sort.\<close>

definition pushed_boundaries :: "jsstring \<Rightarrow> TextBoundary list option" where
  "pushed_boundaries text = do {
     b1 \<leftarrow> exec_loop paragraphRegex
            (\<lambda>i n. [\<lparr> index = i + n, btype = Paragraph, priority = 100 \<rparr>]) text 0 [];
     b2 \<leftarrow> exec_loop sectionRegex
            (\<lambda>i n. [\<lparr> index = i + n, btype = Section, priority = 90 \<rparr>]) text 0 b1;
     b3 \<leftarrow> exec_loop codeBlockRegex
            (\<lambda>i n. [\<lparr> index = i, btype = CodeBlock, priority = 85 \<rparr>,
                    \<lparr> index = i + n, btype = CodeBlock, priority = 85 \<rparr>]) text 0 b2;
     exec_loop sentenceRegex
       (\<lambda>i n. [\<lparr> index = i + 1, btype = Sentence, priority = 50 \<rparr>]) text 0 b3
   }"

text \<open>
  \<open>boundaries.sort((a, b) => a.index - b.index)\<close>: the sort of \<open>Array.prototype.sort\<close>
  is stable, and a stable sort has one result, which \<open>sort_key\<close> computes.
\<close>

definition findTextBoundaries :: "jsstring \<Rightarrow> TextBoundary list option" where
  "findTextBoundaries text = do {
     boundaries \<leftarrow> pushed_boundaries text;
     Some (sort_key index boundaries)
   }"

section \<open>Chunk packer (ContentChunkerWorker.chunkText)\<close>

text \<open>
  \<open>getOverlapText\<close>. \<open>overlapChars / 2\<close> is a floating-point division of an integer
  by two, which is exact.
\<close>

definition getOverlapText :: "jsstring \<Rightarrow> nat \<Rightarrow> jsstring" where
  "getOverlapText chunk overlapTokens' =
     (let overlapChars' = overlapTokens' * 4
      in if length chunk \<le> overlapChars' then chunk
         else
           (let startIndex = max 0 (int (length chunk) - int overlapChars');
                overlapSection = js_slice_from chunk startIndex;
                sentenceBoundary = lastIndexOf overlapSection [46, 32]
            in if real_of_int sentenceBoundary > real overlapChars' / 2
               then js_slice_from chunk (startIndex + sentenceBoundary + 2)
               else overlapSection))"

text \<open>The variables of the loop of \<open>chunkText\<close>; \<open>out_chunks\<close> is its array \<open>chunks\<close>.\<close>

record packer =
  out_chunks :: "jsstring list"
  currentChunk :: jsstring
  currentTokens :: nat
  lastBoundary :: nat

text \<open>One iteration of \<open>for (const boundary of boundaries)\<close>.\<close>

definition chunk_step :: "ChunkingConfig \<Rightarrow> jsstring \<Rightarrow> packer \<Rightarrow> TextBoundary \<Rightarrow> packer" where
  "chunk_step cfg text st boundary =
     (let segmentText = js_slice text (int (lastBoundary st)) (int (index boundary));
          segmentTokens = estimateTokenCount segmentText
      in if currentTokens st + segmentTokens > maxTokensPerChunk cfg \<and> length (currentChunk st) > 0
         then
           (if currentTokens st \<ge> minTokensPerChunk cfg
            then
              (if overlapTokens cfg > 0
               then
                 (let overlapText = getOverlapText (currentChunk st) (overlapTokens cfg);
                      c = overlapText @ segmentText
                  in \<lparr> out_chunks = out_chunks st @ [trim (currentChunk st)],
                       currentChunk = c,
                       currentTokens = estimateTokenCount c,
                       lastBoundary = index boundary \<rparr>)
               else
                 \<lparr> out_chunks = out_chunks st @ [trim (currentChunk st)],
                   currentChunk = segmentText,
                   currentTokens = segmentTokens,
                   lastBoundary = index boundary \<rparr>)
            else
              \<lparr> out_chunks = out_chunks st,
                currentChunk = currentChunk st @ segmentText,
                currentTokens = currentTokens st + segmentTokens,
                lastBoundary = index boundary \<rparr>)
         else
           \<lparr> out_chunks = out_chunks st,
             currentChunk = currentChunk st @ segmentText,
             currentTokens = currentTokens st + segmentTokens,
             lastBoundary = index boundary \<rparr>)"

definition packer_init :: packer where
  "packer_init = \<lparr> out_chunks = [], currentChunk = [], currentTokens = 0, lastBoundary = 0 \<rparr>"

text \<open>
  \<open>fallbackChunking\<close>: \<open>for (let i = 0; i < text.length; i += maxChars - overlapChars)\<close>.
  With a step that is not positive the loop never leaves the text (\<open>None\<close>).
\<close>

partial_function (option) fallback_loop ::
  "ChunkingConfig \<Rightarrow> jsstring \<Rightarrow> int \<Rightarrow> jsstring list \<Rightarrow> jsstring list option" where
  "fallback_loop cfg text i acc =
     (if i < int (length text)
      then fallback_loop cfg text (i + (int (maxCharsPerChunk cfg) - int (overlapChars cfg)))
             (if length (trim (js_slice text i (i + int (maxCharsPerChunk cfg)))) > 0
              then acc @ [trim (js_slice text i (i + int (maxCharsPerChunk cfg)))]
              else acc)
      else Some acc)"

declare fallback_loop.simps [code]

definition fallbackChunking :: "ChunkingConfig \<Rightarrow> jsstring \<Rightarrow> jsstring list option" where
  "fallbackChunking cfg text = fallback_loop cfg text 0 []"

text \<open>The loop of \<open>chunkText\<close> over the boundaries found and the final one at the end of the text.\<close>

definition pack :: "ChunkingConfig \<Rightarrow> jsstring \<Rightarrow> TextBoundary list \<Rightarrow> packer" where
  "pack cfg text found =
     foldl (chunk_step cfg text) packer_init
       (found @ [\<lparr> index = length text, btype = Paragraph, priority = 100 \<rparr>])"

text \<open>The array \<open>chunks\<close> after the trailing chunk has been added.\<close>

definition packed_chunks :: "packer \<Rightarrow> jsstring list" where
  "packed_chunks st =
     (if length (trim (currentChunk st)) > 0
      then out_chunks st @ [trim (currentChunk st)]
      else out_chunks st)"

definition chunkText :: "ChunkingConfig \<Rightarrow> jsstring \<Rightarrow> content_type \<Rightarrow> jsstring list option" where
  "chunkText cfg text contentType = do {
     found \<leftarrow> findTextBoundaries text;
     let result = packed_chunks (pack cfg text found);
     if length result = 0 \<and> length text > 0 then fallbackChunking cfg text else Some result
   }"

section \<open>Summary aggregator (ChunkGroupSummarizerWorker)\<close>

datatype sentiment_value = Positive | Negative | Neutral

text \<open>
  A date field holds a \<open>Date\<close> object (milliseconds since the epoch) or, in an object
  read back from JSON, the ISO string that \<open>Date.prototype.toJSON\<close> wrote for it.
  Only valid dates are modelled: \<open>new Date()\<close> and the timestamps of the store are valid.
\<close>

datatype js_date = is_DateObj: DateObj int | IsoString int

text \<open>
  \<open>SummarizedContent\<close>; its \<open>id\<close>, \<open>content_type\<close>, \<open>sentiment\<close> and
  \<open>crawled_content_id\<close> are \<open>sc_id\<close>, \<open>sc_content_type\<close>, \<open>sc_sentiment\<close> and
  \<open>sc_crawled_content_id\<close>.
\<close>

record SummarizedContent =
  sc_id :: "nat option"
  url :: jsstring
  title :: jsstring
  original_text :: jsstring
  summary :: jsstring
  key_points :: "jsstring list"
  code_snippets :: "jsstring list"
  sc_content_type :: jsstring
  sc_sentiment :: sentiment_value
  category :: jsstring
  crawled_at :: js_date
  summarized_at :: js_date
  sc_crawled_content_id :: "nat option"
  chunk_group_id :: "nat option"
  is_partial_summary :: bool

record ContentWithGroups =
  cwg_id :: nat
  cwg_url :: jsstring
  cwg_title :: jsstring
  cwg_content_type :: jsstring
  cwg_crawled_at :: js_date
  cwg_groups :: "ChunkGroup list"

text \<open>An ASCII literal of the source as code units.\<close>

definition ascii :: "string \<Rightarrow> jsstring" where
  "ascii s = map (\<lambda>c. of_nat (of_char c)) s"

text \<open>The decimal digits of a number, as template literals print an index.\<close>

fun to_decimal :: "nat \<Rightarrow> jsstring" where
  "to_decimal n =
     (if n < 10 then [48 + of_nat n] else to_decimal (n div 10) @ [48 + of_nat (n mod 10)])"

text \<open>
  The merge call to the external summarizer. Its request is the varying part of the
  prompt: title, content type, the text of the partial summaries and the pooled key
  points. Its outcome is one of: the call throws; the completion has no content; the
  content is not JSON; the JSON is \<open>null\<close>; the JSON is a value whose fields \<open>summary\<close>,
  \<open>keyPoints\<close>, \<open>category\<close> and \<open>sentiment\<close> are read (\<open>None\<close> for a field that is
  missing or falsy).
\<close>

record merge_request =
  req_title :: jsstring
  req_content_type :: jsstring
  req_combinedSummary :: jsstring
  req_combinedKeyPoints :: "jsstring list"

record ai_response =
  r_summary :: "jsstring option"
  r_keyPoints :: "jsstring list option"
  r_category :: "jsstring option"
  r_sentiment :: "sentiment_value option"

datatype completion = Throws | NoContent | Unparseable | ParsedNull | Parsed ai_response

text \<open>A string as an operand of \<open>||\<close>: the empty string is falsy.\<close>

definition truthy :: "jsstring \<Rightarrow> jsstring option" where
  "truthy s = (if s = [] then None else Some s)"

text \<open>
  The object literal returned by the merge path of \<open>createFinalSummary\<close>. Reading
  \<open>partialSummaries[0].sentiment\<close> of an empty array throws, which the function
  catches and answers with \<open>null\<close>.
\<close>

definition final_record ::
  "js_date \<Rightarrow> SummarizedContent list \<Rightarrow> ContentWithGroups \<Rightarrow> jsstring list \<Rightarrow> ai_response
     \<Rightarrow> SummarizedContent option" where
  "final_record now partialSummaries contentData combinedKeyPoints aiResponse =
     (if (r_sentiment aiResponse = None \<or> r_category aiResponse = None) \<and> partialSummaries = []
      then None
      else Some
        \<lparr> sc_id = None,
          url = cwg_url contentData,
          title = cwg_title contentData,
          original_text = take 15000 (js_join [10, 10] (map original_text partialSummaries)),
          summary = (case r_summary aiResponse of
                       Some s \<Rightarrow> s | None \<Rightarrow> ascii ''Final summary not available''),
          key_points = (case r_keyPoints aiResponse of
                          Some ps \<Rightarrow> ps | None \<Rightarrow> take 6 combinedKeyPoints),
          code_snippets = [],
          sc_content_type = cwg_content_type contentData,
          sc_sentiment = (case r_sentiment aiResponse of
                            Some v \<Rightarrow> v | None \<Rightarrow> sc_sentiment (partialSummaries ! 0)),
          category = (case r_category aiResponse of
                        Some c \<Rightarrow> c | None \<Rightarrow> category (partialSummaries ! 0)),
          crawled_at = cwg_crawled_at contentData,
          summarized_at = now,
          sc_crawled_content_id = Some (cwg_id contentData),
          chunk_group_id = None,
          is_partial_summary = False \<rparr>)"

text \<open>
  \<open>createFinalSummary\<close>. The result is the returned summary (\<open>None\<close> for \<open>null\<close>)
  and the list of requests sent to the external summarizer. \<open>now\<close> is the value of
  \<open>new Date()\<close>.
\<close>

definition createFinalSummary ::
  "(merge_request \<Rightarrow> completion) \<Rightarrow> js_date \<Rightarrow> SummarizedContent list \<Rightarrow> ContentWithGroups
     \<Rightarrow> SummarizedContent option \<times> merge_request list" where
  "createFinalSummary openai now partialSummaries contentData =
     (if length partialSummaries = 1
      then (Some ((partialSummaries ! 0)\<lparr> is_partial_summary := False \<rparr>), [])
      else
        (let combinedSummary =
               js_join [10, 10]
                 (map (\<lambda>(i, s). ascii ''Part '' @ to_decimal (i + 1) @ ascii '': '' @ summary s)
                    (zip [0..<length partialSummaries] partialSummaries));
             combinedKeyPoints =
               filter (\<lambda>point. point \<noteq> [] \<and> length (trim point) > 0)
                 (concat (map key_points partialSummaries));
             request = \<lparr> req_title = cwg_title contentData,
                         req_content_type = cwg_content_type contentData,
                         req_combinedSummary = combinedSummary,
                         req_combinedKeyPoints = combinedKeyPoints \<rparr>
         in case openai request of
              Throws \<Rightarrow> (None, [request])
            | NoContent \<Rightarrow> (None, [request])
            | ParsedNull \<Rightarrow> (None, [request])
            | Unparseable \<Rightarrow>
                (case partialSummaries of
                   [] \<Rightarrow> (None, [request])
                 | bestPartial # _ \<Rightarrow>
                     (final_record now partialSummaries contentData combinedKeyPoints
                        \<lparr> r_summary = truthy (summary bestPartial),
                          r_keyPoints = Some (take 6 combinedKeyPoints),
                          r_category = truthy (category bestPartial),
                          r_sentiment = Some (sc_sentiment bestPartial) \<rparr>,
                      [request]))
            | Parsed aiResponse \<Rightarrow>
                (final_record now partialSummaries contentData combinedKeyPoints aiResponse,
                 [request])))"

subsection \<open>The staging buffer in Redis\<close>

text \<open>
  The text that \<open>JSON.stringify\<close> writes, given by the object it denotes: every field
  as it is, a \<open>Date\<close> as its ISO string; \<open>JSON.parse\<close> reads that object back.
\<close>

datatype json_text = Json SummarizedContent

definition toJSON :: "js_date \<Rightarrow> js_date" where
  "toJSON d = (case d of DateObj ms \<Rightarrow> IsoString ms | IsoString ms \<Rightarrow> IsoString ms)"

definition JSON_stringify :: "SummarizedContent \<Rightarrow> json_text" where
  "JSON_stringify s =
     Json (s\<lparr> crawled_at := toJSON (crawled_at s), summarized_at := toJSON (summarized_at s) \<rparr>)"

fun JSON_parse :: "json_text \<Rightarrow> SummarizedContent" where
  "JSON_parse (Json s) = s"

text \<open>\<open>new Date(value)\<close> for an ISO string or a \<open>Date\<close>.\<close>

definition new_Date :: "js_date \<Rightarrow> js_date" where
  "new_Date d = (case d of DateObj ms \<Rightarrow> DateObj ms | IsoString ms \<Rightarrow> DateObj ms)"

text \<open>
  The lists of the Redis store by content id: the key \<open>partial_summaries:<id>\<close> is the
  id in decimal after a fixed prefix. A key that was never pushed to holds the empty list.
\<close>

type_synonym redis = "nat \<Rightarrow> json_text list"

definition lPush :: "redis \<Rightarrow> nat \<Rightarrow> json_text \<Rightarrow> redis" where
  "lPush r k v = r(k := v # r k)"

text \<open>
  \<open>LRANGE key start stop\<close>: both ends are inclusive, a negative offset counts from the
  tail, and offsets out of range are clipped.
\<close>

definition lRange :: "redis \<Rightarrow> nat \<Rightarrow> int \<Rightarrow> int \<Rightarrow> json_text list" where
  "lRange r k start stop =
     (let len = int (length (r k));
          s = (if start < 0 then max (len + start) 0 else start);
          e = (if stop < 0 then len + stop else min stop (len - 1))
      in if e < s then [] else take (nat (e - s + 1)) (drop (nat s) (r k)))"

definition storePartialSummary :: "redis \<Rightarrow> nat \<Rightarrow> SummarizedContent \<Rightarrow> redis" where
  "storePartialSummary r crawledContentId partialSummary =
     lPush r crawledContentId (JSON_stringify partialSummary)"

definition getPartialSummaries :: "redis \<Rightarrow> nat \<Rightarrow> SummarizedContent list" where
  "getPartialSummaries r crawledContentId =
     (let summaryStrings = lRange r crawledContentId 0 (- 1)
      in map (\<lambda>str. let s = JSON_parse str
                   in s\<lparr> crawled_at := new_Date (crawled_at s),
                        summarized_at := new_Date (summarized_at s) \<rparr>)
           (rev summaryStrings))"

text \<open>A summary as its interface types it: both date fields hold \<open>Date\<close> objects.\<close>

definition has_dates :: "SummarizedContent \<Rightarrow> bool" where
  "has_dates s = (is_DateObj (crawled_at s) \<and> is_DateObj (summarized_at s))"

section \<open>Notions in which the properties are stated\<close>

subsection \<open>Overlap tail\<close>

text \<open>The trailing slice of \<open>n\<close> code units of a string.\<close>

definition trailing :: "nat \<Rightarrow> jsstring \<Rightarrow> jsstring" where
  "trailing n s = drop (length s - n) s"

text \<open>An occurrence of \<open>". "\<close> at offset \<open>k\<close>, and the last such occurrence.\<close>

definition dot_space_at :: "jsstring \<Rightarrow> nat \<Rightarrow> bool" where
  "dot_space_at s k = (Suc k < length s \<and> s ! k = 46 \<and> s ! Suc k = 32)"

definition last_dot_space :: "jsstring \<Rightarrow> nat \<Rightarrow> bool" where
  "last_dot_space s k = (dot_space_at s k \<and> (\<forall>j. dot_space_at s j \<longrightarrow> j \<le> k))"

subsection \<open>Packer\<close>

text \<open>A text with every whitespace code unit deleted.\<close>

definition strip_ws :: "jsstring \<Rightarrow> jsstring" where
  "strip_ws s = filter (\<lambda>c. \<not> is_ws c) s"



text \<open>
  The condition under which an iteration of the packer finalizes the current chunk, and
  the overlap text with which it seeds the next one (empty when no overlap is configured).
\<close>

definition emits :: "ChunkingConfig \<Rightarrow> jsstring \<Rightarrow> packer \<Rightarrow> TextBoundary \<Rightarrow> bool" where
  "emits cfg text st boundary =
     (currentTokens st
        + estimateTokenCount (js_slice text (int (lastBoundary st)) (int (index boundary)))
        > maxTokensPerChunk cfg
      \<and> length (currentChunk st) > 0 \<and> currentTokens st \<ge> minTokensPerChunk cfg)"

definition overlap_seed :: "ChunkingConfig \<Rightarrow> jsstring \<Rightarrow> jsstring" where
  "overlap_seed cfg c = (if overlapTokens cfg > 0 then getOverlapText c (overlapTokens cfg) else [])"

text \<open>
  The accumulators of a run of the packer, in order: each one that an iteration finalized,
  as the state of the packer at that moment, and at the end the one the loop leaves
  behind; each paired with the overlap text it was seeded with.
\<close>

fun pack_accs ::
  "ChunkingConfig \<Rightarrow> jsstring \<Rightarrow> packer \<Rightarrow> jsstring \<Rightarrow> TextBoundary list
     \<Rightarrow> (jsstring \<times> packer) list" where
  "pack_accs cfg text st seed [] = [(seed, st)]"
| "pack_accs cfg text st seed (b # bs) =
     (if emits cfg text st b
      then (seed, st)
           # pack_accs cfg text (chunk_step cfg text st b) (overlap_seed cfg (currentChunk st)) bs
      else pack_accs cfg text (chunk_step cfg text st b) seed bs)"

definition accumulators ::
  "ChunkingConfig \<Rightarrow> jsstring \<Rightarrow> TextBoundary list \<Rightarrow> (jsstring \<times> packer) list" where
  "accumulators cfg text found =
     pack_accs cfg text packer_init []
       (found @ [\<lparr> index = length text, btype = Paragraph, priority = 100 \<rparr>])"

subsection \<open>Paragraph boundaries\<close>

text \<open>
  The span \<open>[i, e)\<close> of a text is a line feed, a run of whitespace and a line feed: an
  occurrence of one or more blank lines. (A line feed is whitespace itself.)
\<close>

definition para_occ :: "jsstring \<Rightarrow> nat \<Rightarrow> nat \<Rightarrow> bool" where
  "para_occ text i e =
     (i + 2 \<le> e \<and> e \<le> length text \<and> text ! i = 10 \<and> text ! (e - 1) = 10
      \<and> list_all is_ws (take (e - i) (drop i text)))"

text \<open>
  A span of this kind that no other contains is maximal; \<open>max_para_ends\<close> lists, in ascending
  order, the offsets just after the maximal spans of a text.
\<close>

definition max_para_occ :: "jsstring \<Rightarrow> nat \<Rightarrow> nat \<Rightarrow> bool" where
  "max_para_occ text i e =
     (para_occ text i e \<and>
      (\<forall>i' \<in> {..i}. \<forall>e' \<in> {e..length text}. para_occ text i' e' \<longrightarrow> i' = i \<and> e' = e))"

definition max_para_ends :: "jsstring \<Rightarrow> nat list" where
  "max_para_ends text = filter (\<lambda>e. \<exists>i \<in> {..e}. max_para_occ text i e) [0..<Suc (length text)]"

text \<open>
  The lines of a text, split at its line feeds, and the lines that are blank (empty or
  whitespace only).
\<close>

fun split_lines :: "jsstring \<Rightarrow> jsstring list" where
  "split_lines [] = [[]]"
| "split_lines (c # cs) =
     (if c = 10 then [] # split_lines cs
      else (case split_lines cs of [] \<Rightarrow> [[c]] | l # ls \<Rightarrow> (c # l) # ls))"

definition blank_line :: "jsstring \<Rightarrow> bool" where
  "blank_line l = list_all is_ws l"

section \<open>Auxiliary notions for the proofs\<close>

text \<open>
  The matches that the loop over \<open>exec\<close> visits from \<open>lastIndex = i\<close> on, as (offset,
  length), for an expression that never matches the empty string.
\<close>

function all_matches :: "regex \<Rightarrow> jsstring \<Rightarrow> nat \<Rightarrow> (nat \<times> nat) list" where
  "all_matches re text i =
     (case regex_exec re text i of
        None \<Rightarrow> []
      | Some (j, n) \<Rightarrow>
          (if i < j + n \<and> j + n \<le> length text then (j, n) # all_matches re text (j + n) else []))"
  by pat_completeness auto
termination
  by (relation "measure (\<lambda>(re, text, i). length text - i)") auto

declare all_matches.simps [simp del]

definition consuming :: "regex \<Rightarrow> bool" where
  "consuming re = (\<forall>s. match_alts re s \<noteq> Some 0)"

text \<open>The boundaries that the paragraph loop pushes, and those of the three other loops.\<close>

definition paragraph_candidates :: "jsstring \<Rightarrow> TextBoundary list" where
  "paragraph_candidates text =
     map (\<lambda>(i, n). \<lparr> index = i + n, btype = Paragraph, priority = 100 \<rparr>)
       (all_matches paragraphRegex text 0)"

definition other_candidates :: "jsstring \<Rightarrow> TextBoundary list" where
  "other_candidates text =
     map (\<lambda>(i, n). \<lparr> index = i + n, btype = Section, priority = 90 \<rparr>)
       (all_matches sectionRegex text 0)
     @ concat (map (\<lambda>(i, n). [\<lparr> index = i, btype = CodeBlock, priority = 85 \<rparr>,
                             \<lparr> index = i + n, btype = CodeBlock, priority = 85 \<rparr>])
         (all_matches codeBlockRegex text 0))
     @ map (\<lambda>(i, n). \<lparr> index = i + 1, btype = Sentence, priority = 50 \<rparr>)
         (all_matches sentenceRegex text 0)"

text \<open>
  What is left of a match of the paragraph expression after its first line feed (\<open>tail_span\<close>),
  and the whole match (\<open>para_span\<close>), as spans of length \<open>n\<close> at the start of \<open>s\<close>.
\<close>

definition tail_span :: "jsstring \<Rightarrow> nat \<Rightarrow> bool" where
  "tail_span s n = (1 \<le> n \<and> n \<le> length s \<and> s ! (n - 1) = 10 \<and> list_all is_ws (take n s))"

definition para_span :: "jsstring \<Rightarrow> nat \<Rightarrow> bool" where
  "para_span s n =
     (2 \<le> n \<and> n \<le> length s \<and> s ! 0 = 10 \<and> s ! (n - 1) = 10 \<and> list_all is_ws (take n s))"

section \<open>Sample values\<close>

text \<open>Three chunks of one content item; the second has no id.\<close>

definition chunk0 :: ContentChunk where
  "chunk0 = \<lparr> chunk_id = Some 11, crawled_content_id = 7, chunk_index = 0,
      chunk_text = [97], token_count = 1, chunk_type = Article \<rparr>"

definition chunk1 :: ContentChunk where
  "chunk1 = \<lparr> chunk_id = None, crawled_content_id = 7, chunk_index = 1,
      chunk_text = [98, 98], token_count = 1, chunk_type = Article \<rparr>"

definition chunk2 :: ContentChunk where
  "chunk2 = \<lparr> chunk_id = Some 13, crawled_content_id = 7, chunk_index = 2,
      chunk_text = [99], token_count = 2, chunk_type = Article \<rparr>"

text \<open>\<open>"abcde. x"\<close>\<close>

definition sample_chunk :: jsstring where
  "sample_chunk = [97, 98, 99, 100, 101, 46, 32, 120]"

definition sample_summary :: SummarizedContent where
  "sample_summary =
     \<lparr> sc_id = None, url = [117], title = [116], original_text = [111], summary = [115],
       key_points = [[107]], code_snippets = [], sc_content_type = [97],
       sc_sentiment = Neutral, category = [99], crawled_at = DateObj 1000,
       summarized_at = DateObj 2000, sc_crawled_content_id = Some 7,
       chunk_group_id = Some 3, is_partial_summary = True \<rparr>"

text \<open>An upsert that always succeeds and answers with an id derived from the index.\<close>

definition sample_insert :: chunk_insert where
  "sample_insert contentId i chunk tokenCount contentType = Some (100 + i)"

text \<open>
  A small configuration, without and with overlap, and the text
  \<open>"A. B. C. D. E. F. G. H. I. J"\<close> with its sentence boundaries and its chunks under the
  configuration with overlap.
\<close>

definition cfg_small :: ChunkingConfig where
  "cfg_small = \<lparr> maxTokensPerChunk = 3, minTokensPerChunk = 3, overlapTokens = 0,
       chunksPerGroup = 2, maxChunksPerGroup = 3,
       maxCharsPerChunk = 4, minCharsPerChunk = 1, overlapChars = 1 \<rparr>"

definition cfg_overlap :: ChunkingConfig where
  "cfg_overlap = \<lparr> maxTokensPerChunk = 3, minTokensPerChunk = 3, overlapTokens = 1,
       chunksPerGroup = 2, maxChunksPerGroup = 3,
       maxCharsPerChunk = 4, minCharsPerChunk = 1, overlapChars = 1 \<rparr>"


definition sample_sentences :: jsstring where
  "sample_sentences = [65, 46, 32, 66, 46, 32, 67, 46, 32, 68, 46, 32, 69, 46, 32, 70, 46, 32,
     71, 46, 32, 72, 46, 32, 73, 46, 32, 74]"

definition sample_found :: "TextBoundary list" where
  "sample_found = map (\<lambda>i. \<lparr> index = i, btype = Sentence, priority = 50 \<rparr>)
                    [2, 5, 8, 11, 14, 17, 20, 23, 26]"

definition sample_overlap_chunks :: "jsstring list" where
  "sample_overlap_chunks =
     [[65, 46, 32, 66, 46, 32, 67, 46],
      [46, 32, 67, 46, 32, 68, 46, 32, 69, 46],
      [46, 32, 69, 46, 32, 70, 46, 32, 71, 46],
      [46, 32, 71, 46, 32, 72, 46, 32, 73, 46],
      [46, 32, 73, 46, 32, 74]]"

text \<open>\<open>"\n\n```a```"\<close>: a paragraph boundary and the start of a code block at one offset.\<close>

definition sample_fence :: jsstring where
  "sample_fence = [10, 10, 96, 96, 96, 97, 96, 96, 96]"

section \<open>Basic facts\<close>

lemma js_slice_nat:
  "js_slice xs (int a) (int b) = take (b - a) (drop a xs)"
proof (cases "a \<le> length xs")
  case True
  then show ?thesis
    by (cases "b \<le> length xs") (simp_all add: js_slice_def Let_def min_def nat_diff_distrib')
next
  case False
  then show ?thesis by (simp add: js_slice_def Let_def min_def)
qed

lemma estimateTokenCount_div: "estimateTokenCount s = (length s + 3) div 4"
proof -
  have "\<lceil>real (length s) / 4\<rceil> = \<lceil>real_of_int (int (length s)) / real_of_int 4\<rceil>"
    by simp
  also have "\<dots> = - (- int (length s) div 4)"
    by (simp only: ceiling_divide_eq_div)
  also have "\<dots> = (int (length s) + 3) div 4"
    by presburger
  finally have "estimateTokenCount s = nat ((int (length s) + 3) div 4)"
    by (simp add: estimateTokenCount_def)
  also have "\<dots> = (length s + 3) div 4"
    by (simp add: nat_div_distrib nat_add_distrib)
  finally show ?thesis .
qed

section \<open>Group builder: the loop in closed form\<close>

lemma groups_count_step:
  assumes "i < n" "1 \<le> (c::nat)"
  shows "(n - i + c - 1) div c = Suc ((n - (i + c) + c - 1) div c)"
proof -
  define x where "x = n - (i + c) + c - 1"
  define y where "y = n - i + c - 1"
  show ?thesis
  proof (cases "i + c \<le> n")
    case True
    then have "y = x + c" unfolding x_def y_def using assms by arith
    then have "y div c = Suc (x div c)" using assms by simp
    then show ?thesis unfolding x_def y_def .
  next
    case False
    then have a: "c * 1 \<le> y" "y < c * Suc 1" and b: "x < c"
      unfolding x_def y_def using assms by simp_all
    have "y div c = 1" using a by (rule div_nat_eqI)
    then have "y div c = Suc (x div c)" using b by simp
    then show ?thesis unfolding x_def y_def .
  qed
qed

lemma createChunkGroups_loop_closed:
  assumes "1 \<le> chunksPerGroup cfg"
  shows "createChunkGroups_loop cfg chunks i groups =
           Some (groups @ map (\<lambda>k. make_group cfg chunks (i + k * chunksPerGroup cfg))
                   [0..<(length chunks - i + chunksPerGroup cfg - 1) div chunksPerGroup cfg])"
proof (induction "length chunks - i" arbitrary: i groups rule: less_induct)
  case less
  let ?c = "chunksPerGroup cfg"
  let ?f = "\<lambda>j k. make_group cfg chunks (j + k * ?c)"
  show ?case
  proof (cases "i < length chunks")
    case True
    define m where "m = (length chunks - (i + ?c) + ?c - 1) div ?c"
    have d: "length chunks - (i + ?c) < length chunks - i" using True assms by arith
    have cnt: "(length chunks - i + ?c - 1) div ?c = Suc m"
      unfolding m_def using True assms by (rule groups_count_step)
    have shift: "map (?f i) [0..<Suc m] = make_group cfg chunks i # map (?f (i + ?c)) [0..<m]"
      by (simp only: map_upt_Suc) (simp add: add.assoc)
    have "createChunkGroups_loop cfg chunks i groups =
            createChunkGroups_loop cfg chunks (i + ?c) (groups @ [make_group cfg chunks i])"
      using True by (subst createChunkGroups_loop.simps) simp
    also have "\<dots> = Some ((groups @ [make_group cfg chunks i]) @ map (?f (i + ?c)) [0..<m])"
      unfolding m_def by (rule less[OF d])
    also have "\<dots> = Some (groups @ map (?f i) [0..<Suc m])"
      by (simp only: shift) simp
    finally show ?thesis by (simp only: cnt)
  next
    case False
    then have "(length chunks - i + ?c - 1) div ?c = 0" using assms by simp
    then show ?thesis using False by (subst createChunkGroups_loop.simps) simp
  qed
qed

lemma createChunkGroups_closed:
  assumes "1 \<le> chunksPerGroup cfg"
  shows "createChunkGroups cfg chunks =
           Some (map (\<lambda>k. make_group cfg chunks (k * chunksPerGroup cfg))
                   [0..<(length chunks + chunksPerGroup cfg - 1) div chunksPerGroup cfg])"
  unfolding createChunkGroups_def
  by (simp add: createChunkGroups_loop_closed[OF assms])

lemma foldl_token_sum:
  "foldl (\<lambda>total chunk. total + token_count chunk) a w = a + sum_list (map token_count w)"
  by (induction w arbitrary: a) simp_all

lemma defined_ids:
  "map the (filter (\<lambda>x. x \<noteq> None) (map chunk_id w)) = List.map_filter chunk_id w"
  by (induction w) (auto split: option.splits)

lemma make_group_window:
  "make_group cfg chunks i =
     (let w = take (maxChunksPerGroup cfg) (drop i chunks)
      in \<lparr> group_id = None,
           group_content_id = crawled_content_id (chunks ! 0),
           chunk_ids = List.map_filter chunk_id w,
           group_index = i div chunksPerGroup cfg,
           combined_text = js_join [10, 10] (map chunk_text w),
           combined_tokens = sum_list (map token_count w),
           status = Pending \<rparr>)"
proof -
  have "js_slice chunks (int i) (int i + int (maxChunksPerGroup cfg))
          = take (maxChunksPerGroup cfg) (drop i chunks)"
    using js_slice_nat[of chunks i "i + maxChunksPerGroup cfg"] by simp
  then show ?thesis
    by (simp only: make_group_def Let_def foldl_token_sum defined_ids) simp
qed

lemma group_count_iff:
  assumes "1 \<le> (c::nat)"
  shows "k < (n + c - 1) div c \<longleftrightarrow> k * c < n"
proof -
  have "k < (n + c - 1) div c \<longleftrightarrow> Suc k \<le> (n + c - 1) div c" by arith
  also have "\<dots> \<longleftrightarrow> Suc k * c \<le> n + c - 1"
    using assms by (simp add: less_eq_div_iff_mult_less_eq)
  also have "\<dots> \<longleftrightarrow> k * c < n" using assms by simp arith
  finally show ?thesis .
qed

text \<open>
  C3: for a chunk list of length \<open>N \<ge> 1\<close> and \<open>chunksPerGroup \<ge> 1\<close>, createChunkGroups
  returns one group per window start \<open>i = k * chunksPerGroup < N\<close>; the group of start
  \<open>i\<close> holds the window \<open>chunks[i .. i + maxChunksPerGroup)\<close>, its combined_text is the
  member texts joined by a blank line (two line feeds), its combined_tokens the sum of the
  member token counts, its group_index \<open>i div chunksPerGroup = k\<close>, its chunk_ids the
  defined member ids, and its status pending.
\<close>

theorem createChunkGroups_spec:
  assumes "1 \<le> length chunks" and "1 \<le> chunksPerGroup cfg"
  shows "createChunkGroups cfg chunks =
           Some (map (\<lambda>k. let i = k * chunksPerGroup cfg;
                              w = take (maxChunksPerGroup cfg) (drop i chunks)
                          in \<lparr> group_id = None,
                               group_content_id = crawled_content_id (chunks ! 0),
                               chunk_ids = List.map_filter chunk_id w,
                               group_index = i div chunksPerGroup cfg,
                               combined_text = js_join [10, 10] (map chunk_text w),
                               combined_tokens = sum_list (map token_count w),
                               status = Pending \<rparr>)
                   [0..<(length chunks + chunksPerGroup cfg - 1) div chunksPerGroup cfg])
         \<and> (\<forall>k. k < (length chunks + chunksPerGroup cfg - 1) div chunksPerGroup cfg
                  \<longleftrightarrow> k * chunksPerGroup cfg < length chunks)
         \<and> (\<forall>k. (k * chunksPerGroup cfg) div chunksPerGroup cfg = k)"
proof (intro conjI allI)
  show "createChunkGroups cfg chunks = Some (map (\<lambda>k. let i = k * chunksPerGroup cfg;
                              w = take (maxChunksPerGroup cfg) (drop i chunks)
                          in \<lparr> group_id = None,
                               group_content_id = crawled_content_id (chunks ! 0),
                               chunk_ids = List.map_filter chunk_id w,
                               group_index = i div chunksPerGroup cfg,
                               combined_text = js_join [10, 10] (map chunk_text w),
                               combined_tokens = sum_list (map token_count w),
                               status = Pending \<rparr>)
                   [0..<(length chunks + chunksPerGroup cfg - 1) div chunksPerGroup cfg])"
    by (simp only: createChunkGroups_closed[OF assms(2)] make_group_window Let_def)
next
  fix k show "k < (length chunks + chunksPerGroup cfg - 1) div chunksPerGroup cfg
                  \<longleftrightarrow> k * chunksPerGroup cfg < length chunks"
    using assms(2) by (rule group_count_iff)
next
  fix k show "(k * chunksPerGroup cfg) div chunksPerGroup cfg = k"
    using assms(2) by simp
qed

theorem createChunkGroups_spec_witness:
  "createChunkGroups DEFAULT_CHUNKING_CONFIG [chunk0, chunk1, chunk2] =
     Some [\<lparr> group_id = None, group_content_id = 7, chunk_ids = [11, 13], group_index = 0,
              combined_text = [97, 10, 10, 98, 98, 10, 10, 99], combined_tokens = 4,
              status = Pending \<rparr>,
           \<lparr> group_id = None, group_content_id = 7, chunk_ids = [13], group_index = 1,
              combined_text = [99], combined_tokens = 2, status = Pending \<rparr>]"
  using createChunkGroups_spec[of "[chunk0, chunk1, chunk2]" DEFAULT_CHUNKING_CONFIG]
  by (simp add: DEFAULT_CHUNKING_CONFIG_def chunk0_def chunk1_def chunk2_def
        upt_conv_Cons Let_def)

text \<open>
  C10: for a non-empty chunk list and \<open>1 \<le> chunksPerGroup \<le> maxChunksPerGroup\<close>, every
  chunk lies in the window of at least one returned group (the group \<open>j div chunksPerGroup\<close>
  for the chunk of index \<open>j\<close>), and its id, when defined, is among that group's chunk_ids.
\<close>

theorem createChunkGroups_covers:
  assumes "chunks \<noteq> []" and "1 \<le> chunksPerGroup cfg"
    and "chunksPerGroup cfg \<le> maxChunksPerGroup cfg"
  shows "\<exists>groups. createChunkGroups cfg chunks = Some groups \<and>
           (\<forall>j<length chunks. \<exists>k<length groups.
               group_index (groups ! k) = k \<and>
               chunks ! j \<in> set (js_slice chunks (int (k * chunksPerGroup cfg))
                                   (int (k * chunksPerGroup cfg) + int (maxChunksPerGroup cfg))) \<and>
               (\<forall>n. chunk_id (chunks ! j) = Some n \<longrightarrow> n \<in> set (chunk_ids (groups ! k))))"
proof -
  let ?c = "chunksPerGroup cfg"
  let ?m = "maxChunksPerGroup cfg"
  let ?n = "(length chunks + ?c - 1) div ?c"
  let ?groups = "map (\<lambda>k. make_group cfg chunks (k * ?c)) [0..<?n]"
  have res: "createChunkGroups cfg chunks = Some ?groups"
    using assms(2) by (rule createChunkGroups_closed)
  have "\<exists>k<length ?groups. group_index (?groups ! k) = k \<and>
               chunks ! j \<in> set (js_slice chunks (int (k * ?c)) (int (k * ?c) + int ?m)) \<and>
               (\<forall>n. chunk_id (chunks ! j) = Some n \<longrightarrow> n \<in> set (chunk_ids (?groups ! k)))"
    if j: "j < length chunks" for j
  proof -
    define k where "k = j div ?c"
    let ?w = "take ?m (drop (k * ?c) chunks)"
    have lo: "k * ?c \<le> j" unfolding k_def by simp
    have hi: "j < k * ?c + ?c" unfolding k_def using assms(2)
      by (metis One_nat_def Suc_le_lessD dividend_less_div_times add.commute)
    have kn: "k < ?n" using group_count_iff[OF assms(2), of k "length chunks"] lo j by simp
    have sl: "js_slice chunks (int (k * ?c)) (int (k * ?c) + int ?m) = ?w"
      using js_slice_nat[of chunks "k * ?c" "k * ?c + ?m"] by simp
    have idx: "j - k * ?c < length ?w" using lo hi j assms(3) by simp arith
    have "j - k * ?c < ?m" using lo hi assms(3) by arith
    then have "?w ! (j - k * ?c) = chunks ! j" using lo j by simp
    then have mem: "chunks ! j \<in> set ?w" using idx by (metis nth_mem)
    have g: "?groups ! k = make_group cfg chunks (k * ?c)" using kn by simp
    have gi: "group_index (?groups ! k) = k"
      using assms(2) by (simp only: g) (simp add: make_group_window Let_def)
    have ids: "n \<in> set (chunk_ids (?groups ! k))" if "chunk_id (chunks ! j) = Some n" for n
    proof -
      have "n \<in> set (List.map_filter chunk_id ?w)"
        unfolding List.map_filter_def using mem that by force
      then show ?thesis by (simp only: g) (simp add: make_group_window Let_def)
    qed
    show ?thesis using kn gi mem ids sl by (intro exI[of _ k]) simp
  qed
  then show ?thesis using res by blast
qed

theorem createChunkGroups_covers_witness:
  "\<exists>groups. createChunkGroups DEFAULT_CHUNKING_CONFIG [chunk0, chunk1, chunk2] = Some groups \<and>
     (\<exists>k<length groups. group_index (groups ! k) = k \<and>
         chunk2 \<in> set (js_slice [chunk0, chunk1, chunk2] (int (k * 2)) (int (k * 2) + 3)) \<and>
         13 \<in> set (chunk_ids (groups ! k)))"
proof -
  have "[chunk0, chunk1, chunk2] ! 2 = chunk2" by simp
  moreover have "chunk_id chunk2 = Some 13" by (simp add: chunk2_def)
  ultimately show ?thesis
    using createChunkGroups_covers[of "[chunk0, chunk1, chunk2]" DEFAULT_CHUNKING_CONFIG]
    by (simp add: DEFAULT_CHUNKING_CONFIG_def) (metis lessI nth_Cons_0 nth_Cons_Suc)
qed

section \<open>Summary aggregator\<close>

text \<open>
  C8: with exactly one partial summary staged, createFinalSummary returns that summary with
  is_partial_summary set to false and every other field unchanged, and sends no request to
  the external summarizer.
\<close>

theorem createFinalSummary_single:
  "createFinalSummary openai now [s] contentData = (Some (s\<lparr> is_partial_summary := False \<rparr>), [])"
  by (simp add: createFinalSummary_def)

lemma lRange_all: "lRange r k 0 (- 1) = r k"
  by (simp add: lRange_def Let_def)

lemma revive_stringify:
  assumes "has_dates s"
  shows "(let p = JSON_parse (JSON_stringify s)
          in p\<lparr> crawled_at := new_Date (crawled_at p), summarized_at := new_Date (summarized_at p) \<rparr>) = s"
  using assms
  by (cases "crawled_at s"; cases "summarized_at s")
     (simp_all add: has_dates_def JSON_stringify_def toJSON_def new_Date_def Let_def)

lemma getPartialSummaries_store:
  assumes "has_dates s"
  shows "getPartialSummaries (storePartialSummary r cid s) cid = getPartialSummaries r cid @ [s]"
  using revive_stringify[OF assms]
  by (simp add: getPartialSummaries_def storePartialSummary_def lPush_def lRange_all Let_def)

lemma getPartialSummaries_other:
  "cid' \<noteq> cid \<Longrightarrow> getPartialSummaries (storePartialSummary r cid' s) cid = getPartialSummaries r cid"
  by (simp add: getPartialSummaries_def storePartialSummary_def lPush_def lRange_all Let_def)

text \<open>
  C9: partial summaries stored one after the other for one content item are read back by
  getPartialSummaries after what the buffer held before, unchanged and in the order of the
  stores; from an empty buffer the result is exactly the stored sequence.
\<close>

theorem partial_summaries_round_trip:
  assumes "list_all has_dates xs"
  shows "getPartialSummaries (foldl (\<lambda>r s. storePartialSummary r cid s) r0 xs) cid
           = getPartialSummaries r0 cid @ xs"
  using assms
proof (induction xs arbitrary: r0)
  case Nil
  then show ?case by simp
next
  case (Cons x xs)
  then show ?case by (simp add: getPartialSummaries_store)
qed

theorem partial_summaries_round_trip_witness:
  "getPartialSummaries
     (foldl (\<lambda>r s. storePartialSummary r 7 s) (\<lambda>k. [])
        [sample_summary, sample_summary\<lparr> chunk_group_id := Some 4 \<rparr>]) 7
   = [sample_summary, sample_summary\<lparr> chunk_group_id := Some 4 \<rparr>]"
proof -
  have "list_all has_dates [sample_summary, sample_summary\<lparr> chunk_group_id := Some 4 \<rparr>]"
    by (simp add: has_dates_def sample_summary_def)
  then show ?thesis
    using partial_summaries_round_trip[of "[sample_summary, sample_summary\<lparr> chunk_group_id := Some 4 \<rparr>]" 7 "\<lambda>k. []"]
    by (simp add: getPartialSummaries_def lRange_def)
qed

section \<open>Overlap tail\<close>

lemma find_rev_upt_None:
  "find P (rev [0..<n]) = None \<longleftrightarrow> (\<forall>k<n. \<not> P k)"
  by (induction n) (auto simp: less_Suc_eq)

lemma find_rev_upt_Some:
  "find P (rev [0..<n]) = Some k \<longleftrightarrow> (k < n \<and> P k \<and> (\<forall>j<n. P j \<longrightarrow> j \<le> k))"
proof (induction n)
  case 0
  then show ?case by simp
next
  case (Suc n)
  show ?case
  proof (cases "P n")
    case True
    then show ?thesis by (auto simp: less_Suc_eq)
  next
    case False
    then show ?thesis using Suc by (auto simp: less_Suc_eq)
  qed
qed

lemma take2_drop:
  "take 2 (drop k s) = [a, b] \<longleftrightarrow> (Suc k < length s \<and> s ! k = a \<and> s ! Suc k = b)"
proof (cases "Suc k < length s")
  case True
  then have "drop k s = s ! k # s ! Suc k # drop (Suc (Suc k)) s"
    by (simp add: Cons_nth_drop_Suc Suc_lessD)
  then show ?thesis using True by (simp add: numeral_2_eq_2)
next
  case False
  then have "length (take 2 (drop k s)) < 2" by simp
  then have "take 2 (drop k s) \<noteq> [a, b]" by (metis length_Cons list.size(3) numeral_2_eq_2 less_irrefl)
  then show ?thesis using False by simp
qed

lemma lastIndexOf_dot_space_none:
  assumes "\<forall>k. \<not> dot_space_at s k"
  shows "lastIndexOf s [46, 32] = - 1"
proof -
  let ?P = "\<lambda>k. take (length [46, 32 :: code_unit]) (drop k s) = [46, 32]"
  have P: "?P j \<longleftrightarrow> dot_space_at s j" for j
    using take2_drop[of j s 46 32] by (simp add: dot_space_at_def numeral_2_eq_2)
  have "find ?P (rev [0..<Suc (length s - length [46, 32 :: code_unit])]) = None"
    unfolding find_rev_upt_None P using assms by simp
  then show ?thesis unfolding lastIndexOf_def by simp
qed

lemma lastIndexOf_dot_space_last:
  assumes "last_dot_space s k"
  shows "lastIndexOf s [46, 32] = int k"
proof -
  let ?P = "\<lambda>k. take (length [46, 32 :: code_unit]) (drop k s) = [46, 32]"
  have P: "?P j \<longleftrightarrow> dot_space_at s j" for j
    using take2_drop[of j s 46 32] by (simp add: dot_space_at_def numeral_2_eq_2)
  have len: "\<not> length s < length [46, 32 :: code_unit]" and k: "k < Suc (length s - length [46, 32 :: code_unit])"
    using assms by (auto simp: last_dot_space_def dot_space_at_def)
  have "find ?P (rev [0..<Suc (length s - length [46, 32 :: code_unit])]) = Some k"
    unfolding find_rev_upt_Some P using assms k by (auto simp: last_dot_space_def)
  then show ?thesis using len unfolding lastIndexOf_def by simp
qed

lemma last_dot_space_unique: "last_dot_space s k \<Longrightarrow> last_dot_space s j \<Longrightarrow> j = k"
  by (auto simp: last_dot_space_def dest: le_antisym)

lemma last_dot_space_exists:
  assumes "dot_space_at s j"
  shows "\<exists>k. last_dot_space s k"
proof -
  let ?S = "{k. dot_space_at s k}"
  have fin: "finite ?S"
    by (rule finite_subset[of _ "{..<length s}"]) (auto simp: dot_space_at_def)
  have ne: "?S \<noteq> {}" using assms by auto
  have "Max ?S \<in> ?S" using fin ne by (rule Max_in)
  moreover have "\<forall>i. dot_space_at s i \<longrightarrow> i \<le> Max ?S" using fin by (auto intro: Max_ge)
  ultimately show ?thesis unfolding last_dot_space_def by blast
qed

lemma js_slice_from_nat: "js_slice_from s (int a) = drop a s"
  using js_slice_nat[of s a "length s"] by (simp add: js_slice_from_def)

text \<open>
  C6 (amended): getOverlapText returns the whole chunk when the chunk has at most
  \<open>overlapTokens * 4\<close> code units; otherwise, when the last occurrence of \<open>". "\<close> in the
  trailing slice of that length lies past half of the slice, the rest of the slice after that
  occurrence; otherwise the trailing slice itself.
\<close>

theorem getOverlapText_cases:
  "(length chunk \<le> 4 * t \<longrightarrow> getOverlapText chunk t = chunk) \<and>
   (4 * t < length chunk \<longrightarrow>
      (\<forall>k. last_dot_space (trailing (4 * t) chunk) k \<and> 2 * t < k \<longrightarrow>
            getOverlapText chunk t = drop (k + 2) (trailing (4 * t) chunk)) \<and>
      ((\<forall>k. last_dot_space (trailing (4 * t) chunk) k \<longrightarrow> k \<le> 2 * t) \<longrightarrow>
            getOverlapText chunk t = trailing (4 * t) chunk))"
proof (intro conjI impI allI)
  assume "length chunk \<le> 4 * t"
  then show "getOverlapText chunk t = chunk"
    by (simp add: getOverlapText_def Let_def mult.commute)
next
  fix k
  assume long: "4 * t < length chunk"
    and k: "last_dot_space (trailing (4 * t) chunk) k \<and> 2 * t < k"
  have start: "max 0 (int (length chunk) - int (t * 4)) = int (length chunk - 4 * t)"
    using long by simp
  have sec: "js_slice_from chunk (int (length chunk - 4 * t)) = trailing (4 * t) chunk"
    by (simp add: js_slice_from_nat trailing_def)
  have li: "lastIndexOf (trailing (4 * t) chunk) [46, 32] = int k"
    using k by (simp add: lastIndexOf_dot_space_last)
  have "int (length chunk - 4 * t) + int k + 2 = int (length chunk - 4 * t + k + 2)" by simp
  then have fin: "js_slice_from chunk (int (length chunk - 4 * t) + int k + 2)
                = drop (k + 2) (trailing (4 * t) chunk)"
    by (simp only: js_slice_from_nat) (simp add: trailing_def add.commute add.left_commute)
  show "getOverlapText chunk t = drop (k + 2) (trailing (4 * t) chunk)"
    using long k unfolding getOverlapText_def Let_def start sec li fin
    by (simp add: mult.commute)
next
  assume long: "4 * t < length chunk"
    and none: "\<forall>k. last_dot_space (trailing (4 * t) chunk) k \<longrightarrow> k \<le> 2 * t"
  have start: "max 0 (int (length chunk) - int (t * 4)) = int (length chunk - 4 * t)"
    using long by simp
  have sec: "js_slice_from chunk (int (length chunk - 4 * t)) = trailing (4 * t) chunk"
    by (simp add: js_slice_from_nat trailing_def)
  have "lastIndexOf (trailing (4 * t) chunk) [46, 32] \<le> 2 * int t"
  proof (cases "\<exists>j. dot_space_at (trailing (4 * t) chunk) j")
    case True
    then obtain k where k: "last_dot_space (trailing (4 * t) chunk) k"
      using last_dot_space_exists by blast
    then have "k \<le> 2 * t" using none by blast
    then show ?thesis using lastIndexOf_dot_space_last[OF k] by simp
  next
    case False
    then show ?thesis using lastIndexOf_dot_space_none[of "trailing (4 * t) chunk"] by simp
  qed
  then show "getOverlapText chunk t = trailing (4 * t) chunk"
    using long unfolding getOverlapText_def Let_def start sec
    by (simp add: mult.commute)
qed

lemma sample_chunk_last: "last_dot_space sample_chunk 5"
proof -
  have "j \<le> 5" if "dot_space_at sample_chunk j" for j
  proof -
    from that have "j < 7" by (simp add: dot_space_at_def sample_chunk_def)
    then have "j \<le> 5 \<or> j = 6" by arith
    then show ?thesis using that by (auto simp: dot_space_at_def sample_chunk_def)
  qed
  moreover have "dot_space_at sample_chunk 5"
    by (simp add: dot_space_at_def sample_chunk_def eval_nat_numeral)
  ultimately show ?thesis by (simp add: last_dot_space_def)
qed

text \<open>
  C6 as stated takes the whole chunk only when the chunk is shorter than the budget. The
  chunk \<open>"abcde. x"\<close> has exactly \<open>2 * 4\<close> code units, its trailing slice of that length is
  the chunk, the last \<open>". "\<close> is at offset 5, past the halfway point 4, and yet the whole
  chunk is returned, not the rest \<open>"x"\<close> after the occurrence.
\<close>

theorem getOverlapText_claimed_counterexample:
  "\<not> length sample_chunk < 2 * 4 \<and> trailing (2 * 4) sample_chunk = sample_chunk \<and>
   last_dot_space sample_chunk 5 \<and> (2 * 4) div 2 < (5 :: nat) \<and>
   getOverlapText sample_chunk 2 = sample_chunk \<and>
   getOverlapText sample_chunk 2 \<noteq> drop (5 + 2) sample_chunk"
  using sample_chunk_last
  by (simp add: getOverlapText_def trailing_def sample_chunk_def)

theorem getOverlapText_cases_witness:
  "getOverlapText (97 # sample_chunk) 2 = [120] \<and> getOverlapText sample_chunk 3 = sample_chunk"
proof -
  have l: "last_dot_space (trailing (4 * 2) (97 # sample_chunk)) 5"
    using sample_chunk_last by (simp add: trailing_def sample_chunk_def)
  have len: "4 * 2 < length (97 # sample_chunk)" by (simp add: sample_chunk_def)
  have half: "2 * 2 < (5::nat)" by simp
  have short: "length sample_chunk \<le> 4 * 3" by (simp add: sample_chunk_def)
  have "getOverlapText (97 # sample_chunk) 2 = drop (5 + 2) (trailing (4 * 2) (97 # sample_chunk))"
    using getOverlapText_cases[of "97 # sample_chunk" 2] len l half by blast
  moreover have "getOverlapText sample_chunk 3 = sample_chunk"
    using getOverlapText_cases[of sample_chunk 3] short by blast
  ultimately show ?thesis by (simp add: trailing_def sample_chunk_def)
qed

section \<open>Token estimate\<close>

lemma estimateTokenCount_least: "estimateTokenCount s \<le> n \<longleftrightarrow> length s \<le> 4 * n"
  unfolding estimateTokenCount_div by arith

lemma saveChunks_from_closed:
  "saveChunks_from db contentId contentType i cs =
     (map (\<lambda>(k, t). (contentId, k, t, nat \<lceil>real (length t) / 4\<rceil>, contentType)) (enumerate i cs),
      List.map_filter
        (\<lambda>(k, t). map_option
           (\<lambda>rid. \<lparr> chunk_id = Some rid, crawled_content_id = contentId, chunk_index = k,
                    chunk_text = t, token_count = nat \<lceil>real (length t) / 4\<rceil>,
                    chunk_type = contentType \<rparr>)
           (db contentId k t (nat \<lceil>real (length t) / 4\<rceil>) contentType))
        (enumerate i cs))"
proof (induction cs arbitrary: i)
  case Nil
  then show ?case by (simp add: List.map_filter_simps)
next
  case (Cons c cs)
  show ?case
    by (cases "db contentId i c (estimateTokenCount c) contentType")
       (simp_all add: Cons[of "Suc i"] List.map_filter_simps estimateTokenCount_def Let_def)
qed

lemma chunk_step_closed:
  "(let seg = js_slice text (int (lastBoundary st)) (int (index b));
        n = nat \<lceil>real (length seg) / 4\<rceil>;
        st' = chunk_step cfg text st b
    in lastBoundary st' = index b \<and>
       (if maxTokensPerChunk cfg < currentTokens st + n \<and> currentChunk st \<noteq> []
           \<and> minTokensPerChunk cfg \<le> currentTokens st
        then out_chunks st' = out_chunks st @ [trim (currentChunk st)]
             \<and> currentChunk st' = overlap_seed cfg (currentChunk st) @ seg
             \<and> currentTokens st' = nat \<lceil>real (length (currentChunk st')) / 4\<rceil>
        else out_chunks st' = out_chunks st
             \<and> currentChunk st' = currentChunk st @ seg
             \<and> currentTokens st' = currentTokens st + n))"
  by (simp add: chunk_step_def overlap_seed_def estimateTokenCount_def Let_def)

text \<open>
  C4: estimateTokenCount of a string is the ceiling of a quarter of its length, the least
  \<open>n\<close> with \<open>length \<le> 4 * n\<close>. saveChunks sends one upsert per chunk, in order, whose
  token count parameter is that ceiling for the chunk's text, and returns for each upsert
  that succeeded a record with the same count as token_count. An iteration of the packer
  takes as the tokens of a segment that ceiling for the segment's text; it finalizes the
  current chunk exactly when the running total plus the segment's tokens exceeds
  maxTokensPerChunk, the chunk is not empty and the running total is at least
  minTokensPerChunk, and the new running total is then that ceiling for the new accumulator
  (overlap and segment); otherwise the segment's tokens are added to the running total.
\<close>

theorem token_estimate_consistent:
  "estimateTokenCount s = nat \<lceil>real (length s) / 4\<rceil>
   \<and> (\<forall>n. estimateTokenCount s \<le> n \<longleftrightarrow> length s \<le> 4 * n)
   \<and> saveChunks db contentId cs contentType =
       (map (\<lambda>(k, t). (contentId, k, t, nat \<lceil>real (length t) / 4\<rceil>, contentType))
          (enumerate 0 cs),
        List.map_filter
          (\<lambda>(k, t). map_option
             (\<lambda>rid. \<lparr> chunk_id = Some rid, crawled_content_id = contentId, chunk_index = k,
                      chunk_text = t, token_count = nat \<lceil>real (length t) / 4\<rceil>,
                      chunk_type = contentType \<rparr>)
             (db contentId k t (nat \<lceil>real (length t) / 4\<rceil>) contentType))
          (enumerate 0 cs))
   \<and> (let seg = js_slice text (int (lastBoundary st)) (int (index b));
          n = nat \<lceil>real (length seg) / 4\<rceil>;
          st' = chunk_step cfg text st b
      in lastBoundary st' = index b \<and>
         (if maxTokensPerChunk cfg < currentTokens st + n \<and> currentChunk st \<noteq> []
             \<and> minTokensPerChunk cfg \<le> currentTokens st
          then out_chunks st' = out_chunks st @ [trim (currentChunk st)]
               \<and> currentChunk st' = overlap_seed cfg (currentChunk st) @ seg
               \<and> currentTokens st' = nat \<lceil>real (length (currentChunk st')) / 4\<rceil>
          else out_chunks st' = out_chunks st
               \<and> currentChunk st' = currentChunk st @ seg
               \<and> currentTokens st' = currentTokens st + n))"
proof -
  have 1: "estimateTokenCount s = nat \<lceil>real (length s) / 4\<rceil>"
    by (simp add: estimateTokenCount_def)
  have 2: "\<forall>n. estimateTokenCount s \<le> n \<longleftrightarrow> length s \<le> 4 * n"
    by (simp add: estimateTokenCount_least)
  note 3 = saveChunks_from_closed[of db contentId contentType 0 cs, folded saveChunks_def]
  note 4 = chunk_step_closed[of "text" st b cfg]
  show ?thesis using 1 2 3 4 by (intro conjI)
qed


theorem token_estimate_consistent_witness:
  "estimateTokenCount [97, 98, 99, 100, 101] = 2
   \<and> saveChunks sample_insert 7 [[97, 98, 99, 100, 101], [97]] Article
       = ([(7, 0, [97, 98, 99, 100, 101], 2, Article), (7, 1, [97], 1, Article)],
          [\<lparr> chunk_id = Some 100, crawled_content_id = 7, chunk_index = 0,
              chunk_text = [97, 98, 99, 100, 101], token_count = 2, chunk_type = Article \<rparr>,
           \<lparr> chunk_id = Some 101, crawled_content_id = 7, chunk_index = 1,
              chunk_text = [97], token_count = 1, chunk_type = Article \<rparr>])
   \<and> chunk_step cfg_small [65, 46, 32, 66, 46, 32, 67] packer_init
         \<lparr> index = 3, btype = Sentence, priority = 50 \<rparr>
       = \<lparr> out_chunks = [], currentChunk = [65, 46, 32], currentTokens = 1, lastBoundary = 3 \<rparr>"
proof -
  have c: "nat \<lceil>real (length t) / 4\<rceil> = (length t + 3) div 4" for t :: jsstring
    using estimateTokenCount_div[of t] by (simp add: estimateTokenCount_def)
  note t = token_estimate_consistent[of "[97, 98, 99, 100, 101]" sample_insert 7
          "[[97, 98, 99, 100, 101], [97]]" Article "[65, 46, 32, 66, 46, 32, 67]" packer_init
          "\<lparr> index = 3, btype = Sentence, priority = 50 \<rparr>" cfg_small]
  have 1: "estimateTokenCount [97, 98, 99, 100, 101] = 2"
    using t by (simp only: c) simp
  have 2: "saveChunks sample_insert 7 [[97, 98, 99, 100, 101], [97]] Article
       = ([(7, 0, [97, 98, 99, 100, 101], 2, Article), (7, 1, [97], 1, Article)],
          [\<lparr> chunk_id = Some 100, crawled_content_id = 7, chunk_index = 0,
              chunk_text = [97, 98, 99, 100, 101], token_count = 2, chunk_type = Article \<rparr>,
           \<lparr> chunk_id = Some 101, crawled_content_id = 7, chunk_index = 1,
              chunk_text = [97], token_count = 1, chunk_type = Article \<rparr>])"
    using t by (simp only: c) (simp add: sample_insert_def List.map_filter_simps)
  have s: "js_slice [65, 46, 32, 66, 46, 32, 67 :: code_unit] 0 3 = [65, 46, 32]"
    by (simp add: js_slice_def)
  have 3: "chunk_step cfg_small [65, 46, 32, 66, 46, 32, 67] packer_init
         \<lparr> index = 3, btype = Sentence, priority = 50 \<rparr>
       = \<lparr> out_chunks = [], currentChunk = [65, 46, 32], currentTokens = 1, lastBoundary = 3 \<rparr>"
    using t by (simp only: c) (simp add: packer_init_def cfg_small_def s Let_def)
  show ?thesis using 1 2 3 by simp
qed

section \<open>Boundary finder: the loops in closed form\<close>

lemma match_seq_le: "match_seq a s = Some n \<Longrightarrow> n \<le> length s"
  by (induction a s arbitrary: n rule: match_seq.induct)
     (auto split: if_splits option.splits)

lemma match_alts_le: "match_alts re s = Some n \<Longrightarrow> n \<le> length s"
  by (induction re) (auto split: option.splits dest: match_seq_le)

lemma search_from_Some:
  "search_from re s i = Some (j, n) \<Longrightarrow>
     i \<le> j \<and> j - i \<le> length s \<and> match_alts re (drop (j - i) s) = Some n \<and>
     (\<forall>k<j - i. match_alts re (drop k s) = None)"
proof (induction s arbitrary: i)
  case Nil
  then show ?case by (auto split: option.splits)
next
  case (Cons c cs)
  show ?case
  proof (cases "match_alts re (c # cs)")
    case (Some m)
    then show ?thesis using Cons.prems by simp
  next
    case None
    then have rest: "search_from re cs (Suc i) = Some (j, n)" using Cons.prems by simp
    from Cons.IH[OF rest] have ih: "Suc i \<le> j" "j - Suc i \<le> length cs"
      "match_alts re (drop (j - Suc i) cs) = Some n"
      "\<forall>k<j - Suc i. match_alts re (drop k cs) = None" by auto
    have d: "j - i = Suc (j - Suc i)" using ih(1) by arith
    have "match_alts re (drop k (c # cs)) = None" if "k < j - i" for k
    proof (cases k)
      case 0
      then show ?thesis using None by simp
    next
      case (Suc k')
      then show ?thesis using that ih(4) d by simp
    qed
    then show ?thesis using ih d by simp
  qed
qed

lemma search_from_None:
  "search_from re s i = None \<Longrightarrow> k \<le> length s \<Longrightarrow> match_alts re (drop k s) = None"
proof (induction s arbitrary: i k)
  case Nil
  then show ?case by (auto split: option.splits)
next
  case (Cons c cs)
  then have h: "match_alts re (c # cs) = None" "search_from re cs (Suc i) = None"
    by (auto split: option.splits)
  show ?case
  proof (cases k)
    case 0
    then show ?thesis using h by simp
  next
    case (Suc k')
    then show ?thesis using Cons.IH[OF h(2), of k'] Cons.prems(2) by simp
  qed
qed

lemma regex_exec_Some:
  assumes "regex_exec re text i = Some (j, n)"
  shows "i \<le> j" and "j + n \<le> length text" and "match_alts re (drop j text) = Some n"
    and "\<And>k. i \<le> k \<Longrightarrow> k < j \<Longrightarrow> match_alts re (drop k text) = None"
proof -
  from assms have le: "i \<le> length text" and s: "search_from re (drop i text) i = Some (j, n)"
    by (auto simp: regex_exec_def split: if_splits)
  from search_from_Some[OF s] have f: "i \<le> j" "j - i \<le> length (drop i text)"
    "match_alts re (drop (j - i) (drop i text)) = Some n"
    "\<forall>k<j - i. match_alts re (drop k (drop i text)) = None" by auto
  show "i \<le> j" by (rule f(1))
  have dj: "drop (j - i) (drop i text) = drop j text" using f(1) by simp
  show m: "match_alts re (drop j text) = Some n" using f(3) dj by simp
  have "n \<le> length (drop j text)" using m by (rule match_alts_le)
  moreover have "j \<le> length text" using f(1,2) le by simp
  ultimately show "j + n \<le> length text" by simp
  fix k assume "i \<le> k" "k < j"
  then have "k - i < j - i" by arith
  then have "match_alts re (drop (k - i) (drop i text)) = None" using f(4) by blast
  then show "match_alts re (drop k text) = None" using \<open>i \<le> k\<close> by simp
qed

lemma regex_exec_None:
  assumes "regex_exec re text i = None" and "i \<le> k" and "k \<le> length text"
  shows "match_alts re (drop k text) = None"
proof -
  from assms have s: "search_from re (drop i text) i = None"
    by (auto simp: regex_exec_def split: if_splits)
  have "match_alts re (drop (k - i) (drop i text)) = None"
    using s by (rule search_from_None) (use assms in simp)
  then show ?thesis using assms(2) by simp
qed

lemma exec_loop_all_matches:
  assumes "consuming re"
  shows "exec_loop re emit text i acc
           = Some (acc @ concat (map (\<lambda>(j, n). emit j n) (all_matches re text i)))"
  using assms
proof (induction re "text" i arbitrary: acc rule: all_matches.induct)
  case (1 re "text" i)
  show ?case
  proof (cases "regex_exec re text i")
    case None
    then show ?thesis by (subst exec_loop.simps, subst all_matches.simps) simp
  next
    case (Some m)
    obtain j n where m: "m = (j, n)" by (cases m)
    have ex: "regex_exec re text i = Some (j, n)" using Some m by simp
    have "match_alts re (drop j text) \<noteq> Some 0" using "1.prems" by (simp add: consuming_def)
    then have "0 < n" using regex_exec_Some(3)[OF ex] by (cases n) auto
    then have g: "i < j + n \<and> j + n \<le> length text"
      using regex_exec_Some(1,2)[OF ex] by simp
    have "exec_loop re emit text i acc = exec_loop re emit text (j + n) (acc @ emit j n)"
      using ex by (subst exec_loop.simps) simp
    also have "\<dots> = Some ((acc @ emit j n) @ concat (map (\<lambda>(j, n). emit j n) (all_matches re text (j + n))))"
      using "1.IH"[OF ex[unfolded m[symmetric]] m[symmetric] g "1.prems"] by simp
    also have "\<dots> = Some (acc @ concat (map (\<lambda>(j, n). emit j n) (all_matches re text i)))"
      using ex g by (subst (2) all_matches.simps) simp
    finally show ?thesis .
  qed
qed

lemma match_seq_Cls_pos: "match_seq (Cls P # r) s \<noteq> Some 0"
  by (cases s) auto

lemma match_alts_one_pos: "match_alts [Cls P # r] s \<noteq> Some 0"
  using match_seq_Cls_pos[of P r s] by (cases "match_seq (Cls P # r) s") simp_all

lemma match_alts_two_pos: "match_alts [Cls P # r, Cls Q # r'] s \<noteq> Some 0"
  using match_seq_Cls_pos[of P r s] match_seq_Cls_pos[of Q r' s]
  by (cases "match_seq (Cls P # r) s"; cases "match_seq (Cls Q # r') s") simp_all

lemma consuming_paragraphRegex: "consuming paragraphRegex"
  unfolding consuming_def paragraphRegex_def by (rule allI) (rule match_alts_one_pos)

lemma consuming_sectionRegex: "consuming sectionRegex"
  unfolding consuming_def sectionRegex_def by (rule allI) (rule match_alts_one_pos)

lemma consuming_codeBlockRegex: "consuming codeBlockRegex"
  unfolding consuming_def codeBlockRegex_def by (rule allI) (rule match_alts_two_pos)

lemma consuming_sentenceRegex: "consuming sentenceRegex"
  unfolding consuming_def sentenceRegex_def by (rule allI) (rule match_alts_one_pos)

lemma all_matches_elem:
  assumes "consuming re" and "(j, n) \<in> set (all_matches re text i)"
  shows "i \<le> j \<and> 0 < n \<and> j + n \<le> length text \<and> match_alts re (drop j text) = Some n"
  using assms
proof (induction re "text" i rule: all_matches.induct)
  case (1 re "text" i)
  show ?case
  proof (cases "regex_exec re text i")
    case None
    then show ?thesis using "1.prems"(2) by (subst (asm) all_matches.simps) simp
  next
    case (Some m)
    obtain j' n' where m: "m = (j', n')" by (cases m)
    have ex: "regex_exec re text i = Some (j', n')" using Some m by simp
    have "match_alts re (drop j' text) \<noteq> Some 0" using "1.prems"(1) by (simp add: consuming_def)
    then have pos: "0 < n'" using regex_exec_Some(3)[OF ex] by (cases n') auto
    then have g: "i < j' + n' \<and> j' + n' \<le> length text"
      using regex_exec_Some(1,2)[OF ex] by simp
    have "(j, n) = (j', n') \<or> (j, n) \<in> set (all_matches re text (j' + n'))"
      using "1.prems"(2) ex g by (subst (asm) all_matches.simps) simp
    then show ?thesis
    proof
      assume "(j, n) = (j', n')"
      then show ?thesis using regex_exec_Some(1,2,3)[OF ex] pos by simp
    next
      assume "(j, n) \<in> set (all_matches re text (j' + n'))"
      then have "j' + n' \<le> j \<and> 0 < n \<and> j + n \<le> length text \<and> match_alts re (drop j text) = Some n"
        using "1.IH"[OF ex[unfolded m[symmetric]] m[symmetric] g "1.prems"(1)] by simp
      then show ?thesis using regex_exec_Some(1)[OF ex] by simp
    qed
  qed
qed

lemma all_matches_covers:
  assumes "consuming re" and "i \<le> k" and "k \<le> length text"
    and "match_alts re (drop k text) \<noteq> None"
  shows "\<exists>(j, n) \<in> set (all_matches re text i). j \<le> k \<and> k < j + n"
  using assms
proof (induction re "text" i rule: all_matches.induct)
  case (1 re "text" i)
  show ?case
  proof (cases "regex_exec re text i")
    case None
    then show ?thesis using regex_exec_None[OF None "1.prems"(2,3)] "1.prems"(4) by simp
  next
    case (Some m)
    obtain j' n' where m: "m = (j', n')" by (cases m)
    have ex: "regex_exec re text i = Some (j', n')" using Some m by simp
    have "match_alts re (drop j' text) \<noteq> Some 0" using "1.prems"(1) by (simp add: consuming_def)
    then have pos: "0 < n'" using regex_exec_Some(3)[OF ex] by (cases n') auto
    then have g: "i < j' + n' \<and> j' + n' \<le> length text"
      using regex_exec_Some(1,2)[OF ex] by simp
    have unf: "all_matches re text i = (j', n') # all_matches re text (j' + n')"
      using ex g by (subst all_matches.simps) simp
    have "j' \<le> k" using regex_exec_Some(4)[OF ex "1.prems"(2)] "1.prems"(4) by (cases "k < j'") auto
    show ?thesis
    proof (cases "k < j' + n'")
      case True
      then show ?thesis using \<open>j' \<le> k\<close> unf by simp
    next
      case False
      then have "j' + n' \<le> k" by simp
      then have "\<exists>(j, n) \<in> set (all_matches re text (j' + n')). j \<le> k \<and> k < j + n"
        using "1.IH"[OF ex[unfolded m[symmetric]] m[symmetric] g "1.prems"(1) _ "1.prems"(3,4)] by simp
      then show ?thesis using unf by auto
    qed
  qed
qed

lemma concat_map_single: "concat (map (\<lambda>(i, n). [f i n]) xs) = map (\<lambda>(i, n). f i n) xs"
  by (induction xs) auto

lemma pushed_boundaries_closed:
  "pushed_boundaries text = Some (paragraph_candidates text @ other_candidates text)"
  unfolding pushed_boundaries_def paragraph_candidates_def other_candidates_def
  by (simp add: exec_loop_all_matches consuming_paragraphRegex consuming_sectionRegex
        consuming_codeBlockRegex consuming_sentenceRegex concat_map_single)

lemma findTextBoundaries_closed:
  "findTextBoundaries text
     = Some (sort_key index (paragraph_candidates text @ other_candidates text))"
  by (simp add: findTextBoundaries_def pushed_boundaries_closed)

lemma candidates_bounded:
  assumes "b \<in> set (paragraph_candidates text @ other_candidates text)"
  shows "index b \<le> length text"
proof -
  note e = all_matches_elem[OF consuming_paragraphRegex] all_matches_elem[OF consuming_sectionRegex]
    all_matches_elem[OF consuming_codeBlockRegex] all_matches_elem[OF consuming_sentenceRegex]
  show ?thesis
    using assms unfolding paragraph_candidates_def other_candidates_def
    by (auto dest!: e)
qed

lemma findTextBoundaries_sorted_bounded:
  assumes "findTextBoundaries text = Some found"
  shows "sorted (map index found)" and "\<forall>b \<in> set found. index b \<le> length text"
  using assms candidates_bounded[of _ "text"]
  by (auto simp: findTextBoundaries_closed simp del: set_append)

section \<open>Chunk packer\<close>

lemma chunk_step_lastBoundary [simp]: "lastBoundary (chunk_step cfg text st b) = index b"
  by (simp add: chunk_step_def Let_def)

lemma chunk_step_emits:
  assumes "emits cfg text st b"
  shows "out_chunks (chunk_step cfg text st b) = out_chunks st @ [trim (currentChunk st)]"
    and "currentChunk (chunk_step cfg text st b)
           = overlap_seed cfg (currentChunk st)
             @ js_slice text (int (lastBoundary st)) (int (index b))"
    and "currentTokens (chunk_step cfg text st b)
           = estimateTokenCount (currentChunk (chunk_step cfg text st b))"
  using assms by (simp_all add: chunk_step_def emits_def overlap_seed_def Let_def)

lemma chunk_step_appends:
  assumes "\<not> emits cfg text st b"
  shows "out_chunks (chunk_step cfg text st b) = out_chunks st"
    and "currentChunk (chunk_step cfg text st b)
           = currentChunk st @ js_slice text (int (lastBoundary st)) (int (index b))"
    and "currentTokens (chunk_step cfg text st b)
           = currentTokens st
             + estimateTokenCount (js_slice text (int (lastBoundary st)) (int (index b)))"
  using assms by (auto simp: chunk_step_def emits_def Let_def)

lemma pack_accs_nonempty [simp]: "pack_accs cfg text st seed bs \<noteq> []"
  by (induction bs arbitrary: st seed) auto

lemma pack_accs_last:
  "snd (last (pack_accs cfg text st seed bs)) = foldl (chunk_step cfg text) st bs"
  by (induction bs arbitrary: st seed) auto

lemma pack_accs_out_chunks:
  "out_chunks (foldl (chunk_step cfg text) st bs)
     = out_chunks st
       @ map (\<lambda>(seed, a). trim (currentChunk a)) (butlast (pack_accs cfg text st seed bs))"
proof (induction bs arbitrary: st seed)
  case Nil
  then show ?case by simp
next
  case (Cons b bs)
  show ?case
  proof (cases "emits cfg text st b")
    case True
    then show ?thesis
      using Cons.IH[of "chunk_step cfg text st b" "overlap_seed cfg (currentChunk st)"]
      by (simp add: chunk_step_emits(1))
  next
    case False
    then show ?thesis
      using Cons.IH[of "chunk_step cfg text st b" seed]
      by (simp add: chunk_step_appends(1))
  qed
qed


lemma strip_ws_Nil [simp]: "strip_ws [] = []"
  by (simp add: strip_ws_def)

lemma strip_ws_append [simp]: "strip_ws (a @ b) = strip_ws a @ strip_ws b"
  by (simp add: strip_ws_def)

lemma strip_ws_prefix: "prefix s c \<Longrightarrow> prefix (strip_ws s) (strip_ws c)"
  by (auto simp: prefix_def)

lemma drop_strip_prefix:
  assumes "prefix s c"
  shows "drop (length (strip_ws s)) (strip_ws (c @ x)) = drop (length (strip_ws s)) (strip_ws c) @ strip_ws x"
  using assms by (auto simp: prefix_def)

lemma slice_split:
  assumes "p \<le> i" and "i \<le> q"
  shows "take (q - p) (drop p t) = take (i - p) (drop p t) @ take (q - i) (drop i (t::'a list))"
proof -
  have "q - p = (i - p) + (q - i)" using assms by arith
  then have "take (q - p) (drop p t) = take (i - p) (drop p t) @ take (q - i) (drop (i - p) (drop p t))"
    by (simp only: take_add)
  then show ?thesis using assms by simp
qed

lemma pack_accs_coverage:
  assumes "sorted (map index bs)" and "\<forall>b \<in> set bs. lastBoundary st \<le> index b"
    and "prefix seed (currentChunk st)"
  shows "concat (map (\<lambda>(s, a). drop (length (strip_ws s)) (strip_ws (currentChunk a)))
                   (pack_accs cfg text st seed bs))
           = drop (length (strip_ws seed)) (strip_ws (currentChunk st))
             @ strip_ws (take (last (lastBoundary st # map index bs) - lastBoundary st)
                           (drop (lastBoundary st) text))"
  using assms
proof (induction bs arbitrary: st seed)
  case Nil
  then show ?case by simp
next
  case (Cons b bs)
  let ?p = "lastBoundary st"
  let ?q = "last (index b # map index bs)"
  let ?st' = "chunk_step cfg text st b"
  let ?seg = "js_slice text (int ?p) (int (index b))"
  have pb: "?p \<le> index b" using Cons.prems(2) by simp
  have bq: "index b \<le> ?q" using Cons.prems(1) by (cases bs rule: rev_cases) auto
  have seg: "?seg = take (index b - ?p) (drop ?p text)" by (rule js_slice_nat)
  have split: "take (?q - ?p) (drop ?p text)
                 = ?seg @ take (?q - index b) (drop (index b) text)"
    unfolding seg using pb bq by (rule slice_split)
  have sorted': "sorted (map index bs)" using Cons.prems(1) by simp
  have lb': "\<forall>x \<in> set bs. lastBoundary ?st' \<le> index x" using Cons.prems(1) by simp
  have q': "last (lastBoundary ?st' # map index bs) = ?q" by simp
  have q0: "last (?p # map index (b # bs)) = ?q" by simp
  show ?case
  proof (cases "emits cfg text st b")
    case True
    let ?seed' = "overlap_seed cfg (currentChunk st)"
    have cc: "currentChunk ?st' = ?seed' @ ?seg" by (rule chunk_step_emits(2)[OF True])
    have p: "prefix ?seed' (currentChunk ?st')" by (simp add: cc)
    have ih: "concat (map (\<lambda>(s, a). drop (length (strip_ws s)) (strip_ws (currentChunk a)))
                   (pack_accs cfg text ?st' ?seed' bs))
           = drop (length (strip_ws ?seed')) (strip_ws (currentChunk ?st'))
             @ strip_ws (take (?q - index b) (drop (index b) text))"
      using Cons.IH[OF sorted' lb' p] by (simp only: q' chunk_step_lastBoundary)
    have unf: "pack_accs cfg text st seed (b # bs)
                 = (seed, st) # pack_accs cfg text ?st' ?seed' bs"
      using True by simp
    have d: "drop (length (strip_ws ?seed')) (strip_ws (?seed' @ ?seg)) = strip_ws ?seg"
      by simp
    show ?thesis
      unfolding q0 split unf by (simp add: ih cc d del: strip_ws_append) simp
  next
    case False
    have cc: "currentChunk ?st' = currentChunk st @ ?seg" by (rule chunk_step_appends(2)[OF False])
    have p: "prefix seed (currentChunk ?st')" using Cons.prems(3) by (simp add: cc prefix_prefix)
    have ih: "concat (map (\<lambda>(s, a). drop (length (strip_ws s)) (strip_ws (currentChunk a)))
                   (pack_accs cfg text ?st' seed bs))
           = drop (length (strip_ws seed)) (strip_ws (currentChunk ?st'))
             @ strip_ws (take (?q - index b) (drop (index b) text))"
      using Cons.IH[OF sorted' lb' p] by (simp only: q' chunk_step_lastBoundary)
    have d: "drop (length (strip_ws seed)) (strip_ws (currentChunk st @ ?seg))
               = drop (length (strip_ws seed)) (strip_ws (currentChunk st)) @ strip_ws ?seg"
      using Cons.prems(3) by (rule drop_strip_prefix)
    have unf: "pack_accs cfg text st seed (b # bs) = pack_accs cfg text ?st' seed bs"
      using False by simp
    show ?thesis
      unfolding q0 split unf ih cc d by (simp only: strip_ws_append append_assoc)
  qed
qed

lemma strip_ws_dropWhile: "strip_ws (dropWhile is_ws s) = strip_ws s"
  by (induction s) (simp_all add: strip_ws_def)

lemma strip_ws_rev: "strip_ws (rev s) = rev (strip_ws s)"
  by (simp add: strip_ws_def rev_filter)

lemma strip_ws_trim [simp]: "strip_ws (trim s) = strip_ws s"
  by (simp add: trim_def strip_ws_rev strip_ws_dropWhile)

lemma strip_ws_empty_iff: "strip_ws s = [] \<longleftrightarrow> (\<forall>c \<in> set s. is_ws c)"
  by (auto simp: strip_ws_def filter_empty_conv)

lemma trim_empty_iff: "trim s = [] \<longleftrightarrow> strip_ws s = []"
proof
  assume "trim s = []"
  then have "strip_ws (trim s) = []" by simp
  then show "strip_ws s = []" by simp
next
  assume "strip_ws s = []"
  then have "\<forall>c \<in> set s. is_ws c" by (simp add: strip_ws_empty_iff)
  then have "dropWhile is_ws s = []" using dropWhile_eq_Nil_conv[of is_ws s] by blast
  then show "trim s = []" by (simp only: trim_def rev.simps dropWhile.simps)
qed

lemma length_trim_le: "length (trim s) \<le> length s"
proof -
  have "length (trim s) \<le> length (dropWhile is_ws s)"
    unfolding trim_def using length_dropWhile_le[of is_ws "rev (dropWhile is_ws s)"] by simp
  also have "\<dots> \<le> length s" by (rule length_dropWhile_le)
  finally show ?thesis .
qed

lemma estimateTokenCount_mono: "length a \<le> length b \<Longrightarrow> estimateTokenCount a \<le> estimateTokenCount b"
  unfolding estimateTokenCount_div by (simp add: div_le_mono)

lemma estimateTokenCount_append:
  "estimateTokenCount (a @ b) \<le> estimateTokenCount a + estimateTokenCount b"
  unfolding estimateTokenCount_div by simp

lemma set_js_slice: "set (js_slice xs a b) \<subseteq> set xs"
  unfolding js_slice_def Let_def by (meson set_take_subset set_drop_subset subset_trans)

lemma blank_slice:
  assumes "strip_ws text = []"
  shows "trim (js_slice text a b) = []"
proof -
  have "\<forall>c \<in> set (js_slice text a b). is_ws c"
    using assms set_js_slice[of "text" a b] by (auto simp: strip_ws_empty_iff)
  then show ?thesis by (simp add: trim_empty_iff strip_ws_empty_iff)
qed

lemma fallback_loop_blank:
  assumes "strip_ws text = []" and "overlapChars cfg < maxCharsPerChunk cfg"
  shows "fallback_loop cfg text i acc = Some acc"
proof (induction "nat (int (length text) - i)" arbitrary: i rule: less_induct)
  case less
  show ?case
  proof (cases "i < int (length text)")
    case True
    let ?i' = "i + (int (maxCharsPerChunk cfg) - int (overlapChars cfg))"
    have "nat (int (length text) - ?i') < nat (int (length text) - i)"
      using True assms(2) by simp
    then have "fallback_loop cfg text ?i' acc = Some acc" by (rule less)
    then show ?thesis
      using True by (subst fallback_loop.simps) (simp add: blank_slice[OF assms(1)])
  next
    case False
    then show ?thesis by (subst fallback_loop.simps) simp
  qed
qed


lemma pack_accs_tokens:
  assumes "estimateTokenCount (currentChunk st) \<le> currentTokens st"
    and "(s, a) \<in> set (pack_accs cfg text st seed bs)"
  shows "estimateTokenCount (currentChunk a) \<le> currentTokens a"
  using assms
proof (induction bs arbitrary: st seed)
  case Nil
  then show ?case by simp
next
  case (Cons b bs)
  let ?st' = "chunk_step cfg text st b"
  have inv: "estimateTokenCount (currentChunk ?st') \<le> currentTokens ?st'"
  proof (cases "emits cfg text st b")
    case True
    then show ?thesis by (simp add: chunk_step_emits(3))
  next
    case False
    show ?thesis
      unfolding chunk_step_appends(2,3)[OF False]
      using estimateTokenCount_append[of "currentChunk st"] Cons.prems(1)
      by (meson add_le_mono1 le_trans)
  qed
  from Cons.prems(2)
  have "(s, a) = (seed, st) \<or> (\<exists>seed'. (s, a) \<in> set (pack_accs cfg text ?st' seed' bs))"
    by (auto split: if_splits)
  then show ?case using Cons.prems(1) Cons.IH[OF inv] by auto
qed

lemma pack_accs_minimum:
  assumes "(s, a) \<in> set (butlast (pack_accs cfg text st seed bs))"
  shows "minTokensPerChunk cfg \<le> currentTokens a"
  using assms
proof (induction bs arbitrary: st seed)
  case Nil
  then show ?case by simp
next
  case (Cons b bs)
  show ?case
  proof (cases "emits cfg text st b")
    case True
    then have "(s, a) = (seed, st) \<or> (s, a) \<in> set (butlast (pack_accs cfg text
                 (chunk_step cfg text st b) (overlap_seed cfg (currentChunk st)) bs))"
      using Cons.prems by simp
    then show ?thesis using True Cons.IH by (auto simp: emits_def)
  next
    case False
    then show ?thesis using Cons.prems Cons.IH by simp
  qed
qed

text \<open>
  The result of chunkText: the trimmed accumulators of the run, the last one left out when
  it is blank.
\<close>

lemma chunkText_shape:
  assumes "text = [] \<or> strip_ws text \<noteq> [] \<or> overlapChars cfg < maxCharsPerChunk cfg"
  defines "found \<equiv> sort_key index (paragraph_candidates text @ other_candidates text)"
  defines "accs \<equiv> accumulators cfg text found"
  shows "findTextBoundaries text = Some found"
    and "concat (map (\<lambda>(s, a). drop (length (strip_ws s)) (strip_ws (currentChunk a))) accs)
           = strip_ws text"
    and "(chunkText cfg text contentType = Some (map (\<lambda>(s, a). trim (currentChunk a)) accs)
            \<and> strip_ws (currentChunk (snd (last accs))) \<noteq> [])
         \<or> (chunkText cfg text contentType
               = Some (map (\<lambda>(s, a). trim (currentChunk a)) (butlast accs))
            \<and> strip_ws (currentChunk (snd (last accs))) = [])"
proof -
  let ?final = "\<lparr> index = length text, btype = Paragraph, priority = 100 \<rparr>"
  let ?bs = "found @ [?final]"
  show f: "findTextBoundaries text = Some found"
    by (simp add: found_def findTextBoundaries_closed)
  have sorted_found: "sorted (map index found)" and bounded: "\<forall>b \<in> set found. index b \<le> length text"
    using findTextBoundaries_sorted_bounded[OF f] by auto
  have sorted: "sorted (map index ?bs)"
    using sorted_found bounded by (simp add: sorted_append)
  have cov: "concat (map (\<lambda>(s, a). drop (length (strip_ws s)) (strip_ws (currentChunk a)))
                   (pack_accs cfg text packer_init [] ?bs))
               = drop (length (strip_ws [])) (strip_ws (currentChunk packer_init))
                 @ strip_ws (take (last (lastBoundary packer_init # map index ?bs)
                                    - lastBoundary packer_init)
                               (drop (lastBoundary packer_init) text))"
    by (rule pack_accs_coverage[OF sorted]) (simp_all add: packer_init_def)
  show c: "concat (map (\<lambda>(s, a). drop (length (strip_ws s)) (strip_ws (currentChunk a))) accs)
           = strip_ws text"
    using cov by (simp add: accs_def accumulators_def packer_init_def)
  have lst: "snd (last accs) = pack cfg text found"
    by (simp add: accs_def accumulators_def pack_def pack_accs_last)
  have out: "out_chunks (pack cfg text found) = map (\<lambda>(s, a). trim (currentChunk a)) (butlast accs)"
    using pack_accs_out_chunks[of cfg "text" packer_init ?bs "[]"]
    by (simp add: accs_def accumulators_def pack_def packer_init_def)
  have ne: "accs \<noteq> []" by (simp add: accs_def accumulators_def)
  show "(chunkText cfg text contentType = Some (map (\<lambda>(s, a). trim (currentChunk a)) accs)
            \<and> strip_ws (currentChunk (snd (last accs))) \<noteq> [])
         \<or> (chunkText cfg text contentType
               = Some (map (\<lambda>(s, a). trim (currentChunk a)) (butlast accs))
            \<and> strip_ws (currentChunk (snd (last accs))) = [])"
  proof (cases "strip_ws (currentChunk (snd (last accs))) = []")
    case False
    then have t: "trim (currentChunk (pack cfg text found)) \<noteq> []"
      by (simp add: lst trim_empty_iff)
    have fl: "(\<lambda>(s, a). trim (currentChunk a)) (last accs)
                = trim (currentChunk (pack cfg text found))"
      by (simp add: case_prod_beta lst)
    have "map (\<lambda>(s, a). trim (currentChunk a)) accs
            = map (\<lambda>(s, a). trim (currentChunk a)) (butlast accs @ [last accs])"
      using ne by simp
    also have "\<dots> = map (\<lambda>(s, a). trim (currentChunk a)) (butlast accs)
                      @ [(\<lambda>(s, a). trim (currentChunk a)) (last accs)]"
      by (simp only: map_append list.map)
    also have "\<dots> = out_chunks (pack cfg text found) @ [trim (currentChunk (pack cfg text found))]"
      by (simp only: out fl)
    finally have "packed_chunks (pack cfg text found) = map (\<lambda>(s, a). trim (currentChunk a)) accs"
      using t by (simp add: packed_chunks_def)
    moreover have "packed_chunks (pack cfg text found) \<noteq> []"
      using t by (simp add: packed_chunks_def)
    ultimately show ?thesis using False f by (simp add: chunkText_def)
  next
    case True
    then have t: "trim (currentChunk (pack cfg text found)) = []"
      by (simp add: lst trim_empty_iff)
    then have p: "packed_chunks (pack cfg text found)
                    = map (\<lambda>(s, a). trim (currentChunk a)) (butlast accs)"
      by (simp add: packed_chunks_def out)
    show ?thesis
    proof (cases "packed_chunks (pack cfg text found) = [] \<and> text \<noteq> []")
      case False
      then show ?thesis using True f p by (auto simp: chunkText_def)
    next
      case fb: True
      then have bl: "butlast accs = []" using p by simp
      then have "accs = [last accs]" using ne by (metis append_butlast_last_id append_Nil)
      then obtain x where x: "accs = [x]" by blast
      have "concat (map (\<lambda>(s, a). drop (length (strip_ws s)) (strip_ws (currentChunk a))) accs)
                   = drop (length (strip_ws (fst (last accs)))) (strip_ws (currentChunk (snd (last accs))))"
        unfolding x by (simp add: case_prod_beta)
      then have blank: "strip_ws text = []" using c True by simp
      then have "overlapChars cfg < maxCharsPerChunk cfg" using assms(1) fb by simp
      then have "fallbackChunking cfg text = Some []"
        unfolding fallbackChunking_def using blank by (simp add: fallback_loop_blank)
      then show ?thesis using True f fb p bl by (simp add: chunkText_def)
    qed
  qed
qed






text \<open>
  C5 (amended): every chunk that chunkText emits, except possibly the final trailing chunk,
  is the trimmed accumulator of an iteration at which the running total currentTokens of
  the packer was at least minTokensPerChunk; that total is an upper bound of the estimate
  of the emitted chunk, which itself may be smaller than the minimum.
\<close>

theorem chunkText_minimum:
  assumes "overlapChars cfg < maxCharsPerChunk cfg"
  shows "\<exists>found chunks.
           findTextBoundaries text = Some found \<and> chunkText cfg text contentType = Some chunks \<and>
           length chunks \<le> length (accumulators cfg text found) \<and>
           length (accumulators cfg text found) \<le> length chunks + 1 \<and>
           chunks = map (\<lambda>(seed, a). trim (currentChunk a))
                      (take (length chunks) (accumulators cfg text found)) \<and>
           (\<forall>(seed, a) \<in> set (butlast (accumulators cfg text found)).
               minTokensPerChunk cfg \<le> currentTokens a \<and>
               estimateTokenCount (trim (currentChunk a)) \<le> currentTokens a)"
proof -
  define found where "found = sort_key index (paragraph_candidates text @ other_candidates text)"
  define accs where "accs = accumulators cfg text found"
  let ?f = "\<lambda>(seed, a). trim (currentChunk a)"
  have h: "text = [] \<or> strip_ws text \<noteq> [] \<or> overlapChars cfg < maxCharsPerChunk cfg"
    using assms by simp
  note shape = chunkText_shape(1)[OF h, folded found_def]
    chunkText_shape(2)[OF h, folded found_def, folded accs_def]
    chunkText_shape(3)[OF h, of contentType, folded found_def, folded accs_def]
  have ne: "accs \<noteq> []" by (simp add: accs_def accumulators_def)
  have tok: "minTokensPerChunk cfg \<le> currentTokens a \<and>
             estimateTokenCount (trim (currentChunk a)) \<le> currentTokens a"
    if m: "(seed, a) \<in> set (butlast accs)" for seed a
  proof -
    have "(seed, a) \<in> set accs" using m by (rule in_set_butlastD)
    then have "estimateTokenCount (currentChunk a) \<le> currentTokens a"
      unfolding accs_def accumulators_def
      by (rule pack_accs_tokens[rotated]) (simp add: packer_init_def estimateTokenCount_div)
    moreover have "estimateTokenCount (trim (currentChunk a)) \<le> estimateTokenCount (currentChunk a)"
      by (rule estimateTokenCount_mono) (rule length_trim_le)
    moreover have "minTokensPerChunk cfg \<le> currentTokens a"
      using m unfolding accs_def accumulators_def by (rule pack_accs_minimum)
    ultimately show ?thesis by simp
  qed
  then have toks: "\<forall>(seed, a) \<in> set (butlast accs).
               minTokensPerChunk cfg \<le> currentTokens a \<and>
               estimateTokenCount (trim (currentChunk a)) \<le> currentTokens a" by auto
  from shape(3) show ?thesis
  proof
    assume full: "chunkText cfg text contentType = Some (map ?f accs)
                    \<and> strip_ws (currentChunk (snd (last accs))) \<noteq> []"
    show ?thesis
      using shape(1) full toks
      by (intro exI[of _ found] exI[of _ "map ?f accs"]) (simp add: accs_def[symmetric])
  next
    assume part: "chunkText cfg text contentType = Some (map ?f (butlast accs))
                    \<and> strip_ws (currentChunk (snd (last accs))) = []"
    have tk: "take (length (map ?f (butlast accs))) accs = butlast accs"
      by (simp add: butlast_conv_take)
    show ?thesis
      using shape(1) part toks tk
      by (intro exI[of _ found] exI[of _ "map ?f (butlast accs)"]) (simp add: accs_def[symmetric])
  qed
qed

lemma sample_found_eval: "findTextBoundaries sample_sentences = Some sample_found"
  by code_simp

lemma sample_overlap_eval:
  "chunkText cfg_overlap sample_sentences Article = Some sample_overlap_chunks"
  by code_simp


theorem chunkText_minimum_witness:
  "chunkText cfg_overlap sample_sentences Article = Some sample_overlap_chunks \<and>
   list_all (\<lambda>(seed, a). minTokensPerChunk cfg_overlap \<le> currentTokens a \<and>
                          estimateTokenCount (trim (currentChunk a)) \<le> currentTokens a)
     (butlast (accumulators cfg_overlap sample_sentences sample_found))"
proof -
  have h: "overlapChars cfg_overlap < maxCharsPerChunk cfg_overlap"
    by (simp add: cfg_overlap_def)
  from chunkText_minimum[OF h, of sample_sentences Article]
  obtain found chunks where
    "findTextBoundaries sample_sentences = Some found"
    "chunkText cfg_overlap sample_sentences Article = Some chunks"
    "\<forall>(seed, a) \<in> set (butlast (accumulators cfg_overlap sample_sentences found)).
        minTokensPerChunk cfg_overlap \<le> currentTokens a \<and>
        estimateTokenCount (trim (currentChunk a)) \<le> currentTokens a"
    by blast
  then show ?thesis using sample_found_eval sample_overlap_eval by (simp add: list_all_iff)
qed

lemma sample_small_eval:
  "chunkText cfg_small sample_sentences Article =
     Some [[65, 46, 32, 66, 46, 32, 67, 46], [68, 46, 32, 69, 46, 32, 70, 46],
           [71, 46, 32, 72, 46, 32, 73, 46], [74]]"
  by code_simp

text \<open>
  C5 as stated fails: with \<open>maxTokensPerChunk = minTokensPerChunk = 3\<close> and no overlap the
  text \<open>"A. B. C. D. E. F. G. H. I. J"\<close> is cut into four chunks whose estimates are 2, 2, 2
  and 1, all below the minimum, three of them cut inside the loop. The running total is the
  sum of the rounded-up estimates of the segments (1 for each of \<open>"A."\<close>, \<open>" B."\<close>,
  \<open>" C."\<close>), which exceeds the estimate of their concatenation.
\<close>

theorem chunkText_minimum_counterexample:
  "chunkText cfg_small sample_sentences Article =
     Some [[65, 46, 32, 66, 46, 32, 67, 46], [68, 46, 32, 69, 46, 32, 70, 46],
           [71, 46, 32, 72, 46, 32, 73, 46], [74]] \<and>
   map estimateTokenCount
     [[65, 46, 32, 66, 46, 32, 67, 46], [68, 46, 32, 69, 46, 32, 70, 46],
      [71, 46, 32, 72, 46, 32, 73, 46], [74]] = [2, 2, 2, 1] \<and>
   minTokensPerChunk cfg_small = 3"
  using sample_small_eval by (simp add: estimateTokenCount_div cfg_small_def)




text \<open>A text that holds no character with which one of the four expressions starts.\<close>

lemma match_alts_one_none: "s = [] \<or> \<not> P (hd s) \<Longrightarrow> match_alts [Cls P # r] s = None"
  by (cases s) auto

lemma match_alts_two_none:
  "s = [] \<or> (\<not> P (hd s) \<and> \<not> Q (hd s)) \<Longrightarrow> match_alts [Cls P # r, Cls Q # r'] s = None"
  by (cases s) auto

lemma search_from_replicate:
  assumes "\<And>s. s = [] \<or> hd s = x \<Longrightarrow> match_alts re s = None"
  shows "search_from re (replicate n x) i = None"
  by (induction n arbitrary: i) (simp_all add: assms)

lemma exec_loop_replicate:
  assumes "\<And>s. s = [] \<or> hd s = x \<Longrightarrow> match_alts re s = None"
  shows "exec_loop re emit (replicate n x) 0 acc = Some acc"
  by (subst exec_loop.simps) (simp add: regex_exec_def search_from_replicate[OF assms])

lemma findTextBoundaries_plain:
  "findTextBoundaries (replicate n 97) = Some []"
proof -
  have p: "exec_loop paragraphRegex emit (replicate n 97) 0 acc = Some acc" for emit acc
    unfolding paragraphRegex_def by (rule exec_loop_replicate, rule match_alts_one_none) auto
  have s: "exec_loop sectionRegex emit (replicate n 97) 0 acc = Some acc" for emit acc
    unfolding sectionRegex_def by (rule exec_loop_replicate, rule match_alts_one_none) auto
  have c: "exec_loop codeBlockRegex emit (replicate n 97) 0 acc = Some acc" for emit acc
    unfolding codeBlockRegex_def by (rule exec_loop_replicate, rule match_alts_two_none) auto
  have t: "exec_loop sentenceRegex emit (replicate n 97) 0 acc = Some acc" for emit acc
    unfolding sentenceRegex_def by (rule exec_loop_replicate, rule match_alts_one_none) auto
  show ?thesis by (simp add: findTextBoundaries_def pushed_boundaries_def p s c t)
qed

lemma trim_replicate: "\<not> is_ws x \<Longrightarrow> trim (replicate n x) = replicate n x"
  by (simp add: trim_def dropWhile_replicate)

lemma chunkText_no_boundaries:
  assumes "findTextBoundaries text = Some []" and "trim text \<noteq> []"
  shows "chunkText cfg text contentType = Some [trim text]"
proof -
  have "js_slice text (int 0) (int (length text)) = text"
    by (simp only: js_slice_nat) simp
  then have "pack cfg text [] = \<lparr> out_chunks = [], currentChunk = text,
                currentTokens = estimateTokenCount text, lastBoundary = length text \<rparr>"
    by (simp add: pack_def packer_init_def chunk_step_def Let_def)
  then have "packed_chunks (pack cfg text []) = [trim text]"
    using assms(2) by (simp add: packed_chunks_def)
  then show ?thesis using assms(1) by (simp add: chunkText_def)
qed

text \<open>
  C1: a line of 4801 letters \<open>a\<close> holds no boundary and is longer than maxCharsPerChunk of
  the default configuration, yet chunkText returns it as one chunk: the final boundary at
  the end of the text always gives the loop one segment, so a text that is not blank never
  reaches the fallback path. fallbackChunking itself would cut it into slices of 4800 code
  units that advance by 4400.
\<close>

theorem chunkText_long_line_no_fallback:
  "findTextBoundaries (replicate 4801 97) = Some [] \<and>
   maxCharsPerChunk DEFAULT_CHUNKING_CONFIG < length (replicate 4801 (97 :: code_unit)) \<and>
   chunkText DEFAULT_CHUNKING_CONFIG (replicate 4801 97) Article = Some [replicate 4801 97] \<and>
   fallbackChunking DEFAULT_CHUNKING_CONFIG (replicate 4801 97)
     = Some [replicate 4800 97, replicate 401 97]"
proof -
  have ws: "\<not> is_ws (97 :: code_unit)" by (simp add: is_ws_def)
  have tr: "trim (replicate n 97) = replicate n 97" for n using ws by (rule trim_replicate)
  have c: "chunkText DEFAULT_CHUNKING_CONFIG (replicate 4801 97) Article = Some [replicate 4801 97]"
    using chunkText_no_boundaries[OF findTextBoundaries_plain, of 4801 DEFAULT_CHUNKING_CONFIG Article]
    by (simp add: tr)
  have s1: "js_slice (replicate 4801 (97 :: code_unit)) 0 4800 = replicate 4800 97"
    by (simp add: js_slice_def)
  have s2: "js_slice (replicate 4801 (97 :: code_unit)) 4400 9200 = replicate 401 97"
    by (simp add: js_slice_def)
  have f: "fallbackChunking DEFAULT_CHUNKING_CONFIG (replicate 4801 97)
             = Some [replicate 4800 97, replicate 401 97]"
    unfolding fallbackChunking_def
    apply (subst fallback_loop.simps)
    apply (simp add: DEFAULT_CHUNKING_CONFIG_def s1 tr)
    apply (subst fallback_loop.simps)
    apply (simp add: DEFAULT_CHUNKING_CONFIG_def s2 tr)
    apply (subst fallback_loop.simps)
    apply (simp add: DEFAULT_CHUNKING_CONFIG_def)
    done
  show ?thesis using c f findTextBoundaries_plain[of 4801]
    by (simp add: DEFAULT_CHUNKING_CONFIG_def)
qed

section \<open>Paragraph boundaries\<close>

lemma is_ws_lf [simp]: "is_ws 10"
  by (simp add: is_ws_def)

lemma tail_span_Nil [simp]: "\<not> tail_span [] m"
  by (simp add: tail_span_def)

lemma tail_span_Cons:
  "tail_span (c # cs) m \<longleftrightarrow> (m = 1 \<and> c = 10) \<or> (2 \<le> m \<and> is_ws c \<and> tail_span cs (m - 1))"
proof (cases m)
  case 0
  then show ?thesis by (simp add: tail_span_def)
next
  case (Suc m')
  show ?thesis
  proof (cases m')
    case 0
    then show ?thesis using Suc by (auto simp: tail_span_def)
  next
    case (Suc k)
    then show ?thesis using \<open>m = Suc m'\<close> by (auto simp: tail_span_def)
  qed
qed

lemma tail_match:
  "(\<forall>n. match_seq [Star is_ws, Cls (\<lambda>c. c = 10)] s = Some n \<longrightarrow>
        tail_span s n \<and> (\<forall>m. tail_span s m \<longrightarrow> m \<le> n))
   \<and> (match_seq [Star is_ws, Cls (\<lambda>c. c = 10)] s = None \<longrightarrow> (\<forall>m. \<not> tail_span s m))"
proof (induction s)
  case Nil
  then show ?case by simp
next
  case (Cons c cs)
  let ?r = "[Star is_ws, Cls (\<lambda>c. c = 10)]"
  show ?case
  proof (cases "is_ws c")
    case False
    then have "c \<noteq> 10" by auto
    then have "match_seq ?r (c # cs) = None" using False by simp
    moreover have "\<not> tail_span (c # cs) m" for m
      using False \<open>c \<noteq> 10\<close> by (simp add: tail_span_Cons)
    ultimately show ?thesis by simp
  next
    case ws: True
    show ?thesis
    proof (cases "match_seq ?r cs")
      case (Some n')
      then have m: "match_seq ?r (c # cs) = Some (Suc n')" using ws by simp
      from Cons Some have ih: "tail_span cs n'" "\<And>m. tail_span cs m \<Longrightarrow> m \<le> n'" by auto
      have "1 \<le> n'" using ih(1) by (simp add: tail_span_def)
      then have a: "tail_span (c # cs) (Suc n')" using ih(1) ws by (simp add: tail_span_Cons)
      have b: "m \<le> Suc n'" if "tail_span (c # cs) m" for m
        using that ih(2)[of "m - 1"] by (auto simp: tail_span_Cons)
      show ?thesis using m a b by simp
    next
      case None
      from Cons None have ih: "\<And>m. \<not> tail_span cs m" by auto
      show ?thesis
      proof (cases "c = 10")
        case True
        then have m: "match_seq ?r (c # cs) = Some 1" using ws None by simp
        have a: "tail_span (c # cs) 1" using True by (simp add: tail_span_Cons)
        have b: "m \<le> 1" if "tail_span (c # cs) m" for m
          using that ih by (auto simp: tail_span_Cons)
        show ?thesis using m a b by simp
      next
        case False
        then have m: "match_seq ?r (c # cs) = None" using ws None by simp
        have "\<not> tail_span (c # cs) m" for m using False ih by (simp add: tail_span_Cons)
        then show ?thesis using m by simp
      qed
    qed
  qed
qed

lemma para_span_Cons:
  "para_span (c # cs) m \<longleftrightarrow> c = 10 \<and> 2 \<le> m \<and> tail_span cs (m - 1)"
proof (cases m)
  case 0
  then show ?thesis by (simp add: para_span_def)
next
  case (Suc m')
  then show ?thesis by (cases m') (auto simp: para_span_def tail_span_def)
qed

lemma para_span_Nil [simp]: "\<not> para_span [] m"
  by (simp add: para_span_def)

lemma para_match_Some:
  assumes "match_alts paragraphRegex s = Some n"
  shows "para_span s n" and "para_span s m \<Longrightarrow> m \<le> n"
proof -
  let ?r = "[Star is_ws, Cls (\<lambda>c. c = 10)]"
  from assms obtain c cs n' where s: "s = c # cs" and c: "c = 10" and n: "n = Suc n'"
    and t: "match_seq ?r cs = Some n'"
    by (cases s) (auto simp: paragraphRegex_def split: if_splits option.splits)
  from tail_match[of cs] t have ih: "tail_span cs n'" "\<And>m. tail_span cs m \<Longrightarrow> m \<le> n'" by auto
  have "1 \<le> n'" using ih(1) by (simp add: tail_span_def)
  then show "para_span s n" using ih(1) by (simp add: s c n para_span_Cons)
  show "m \<le> n" if "para_span s m"
    using that ih(2)[of "m - 1"] by (auto simp: s n para_span_Cons)
qed

lemma para_match_None:
  assumes "match_alts paragraphRegex s = None"
  shows "\<not> para_span s m"
proof (cases s)
  case Nil
  then show ?thesis by simp
next
  case (Cons c cs)
  let ?r = "[Star is_ws, Cls (\<lambda>c. c = 10)]"
  show ?thesis
  proof (cases "c = 10")
    case True
    then have "match_seq ?r cs = None"
      using assms Cons by (auto simp: paragraphRegex_def split: option.splits)
    then have "\<not> tail_span cs (m - 1)" using tail_match[of cs] by simp
    then show ?thesis by (simp add: Cons para_span_Cons)
  next
    case False
    then show ?thesis by (simp add: Cons para_span_Cons)
  qed
qed

lemma para_occ_span:
  "para_occ text i e \<longleftrightarrow> i + 2 \<le> e \<and> e \<le> length text \<and> para_span (drop i text) (e - i)"
proof (cases "i + 2 \<le> e \<and> e \<le> length text")
  case True
  then have "e - i - 1 + i = e - 1" by arith
  then have "drop i text ! (e - i - 1) = text ! (e - 1)" using True by (simp add: add.commute)
  then show ?thesis using True by (auto simp: para_occ_def para_span_def)
next
  case False
  then show ?thesis by (auto simp: para_occ_def)
qed

lemma other_candidates_not_paragraph:
  "b \<in> set (other_candidates text) \<Longrightarrow> btype b \<noteq> Paragraph"
  by (auto simp: other_candidates_def)

lemma all_matches_sorted:
  assumes "consuming re"
  shows "sorted_wrt (\<lambda>(j, n) (j', n'). j + n \<le> j') (all_matches re text i)"
  using assms
proof (induction re "text" i rule: all_matches.induct)
  case (1 re "text" i)
  show ?case
  proof (cases "regex_exec re text i")
    case None
    then show ?thesis by (subst all_matches.simps) simp
  next
    case (Some m)
    obtain j' n' where m: "m = (j', n')" by (cases m)
    have ex: "regex_exec re text i = Some (j', n')" using Some m by simp
    show ?thesis
    proof (cases "i < j' + n' \<and> j' + n' \<le> length text")
      case False
      then show ?thesis using ex by (subst all_matches.simps) auto
    next
      case g: True
      have unf: "all_matches re text i = (j', n') # all_matches re text (j' + n')"
        using ex g by (subst all_matches.simps) simp
      have tl: "sorted_wrt (\<lambda>(j, n) (j', n'). j + n \<le> j') (all_matches re text (j' + n'))"
        using "1.IH"[OF ex[unfolded m[symmetric]] m[symmetric] g "1.prems"] .
      have "j' + n' \<le> j" if "(j, n) \<in> set (all_matches re text (j' + n'))" for j n
        using all_matches_elem[OF "1.prems" that] by simp
      then show ?thesis unfolding unf using tl by auto
    qed
  qed
qed

lemma all_matches_disjoint:
  assumes "consuming re" and "(j, n) \<in> set (all_matches re text i)"
    and "(j', n') \<in> set (all_matches re text i)" and "j < j'"
  shows "j + n \<le> j'"
proof -
  let ?R = "\<lambda>(j, n) (j', n'). j + n \<le> (j' :: nat)"
  let ?ms = "all_matches re text i"
  have s: "sorted_wrt ?R ?ms" using assms(1) by (rule all_matches_sorted)
  obtain a where a: "a < length ?ms" "?ms ! a = (j, n)" using assms(2) by (auto simp: in_set_conv_nth)
  obtain b where b: "b < length ?ms" "?ms ! b = (j', n')" using assms(3) by (auto simp: in_set_conv_nth)
  have pos: "0 < n" "0 < n'"
    using all_matches_elem[OF assms(1,2)] all_matches_elem[OF assms(1,3)] by auto
  show ?thesis
  proof (cases "a < b")
    case True
    then have "?R (?ms ! a) (?ms ! b)" using s b(1) by (simp add: sorted_wrt_iff_nth_less)
    then show ?thesis by (simp add: a b)
  next
    case False
    then have "b < a \<or> a = b" by arith
    then show ?thesis
    proof
      assume "b < a"
      then have "?R (?ms ! b) (?ms ! a)" using s a(1) by (simp add: sorted_wrt_iff_nth_less)
      then have "j' + n' \<le> j" by (simp add: a b)
      then show ?thesis using assms(4) by simp
    next
      assume "a = b"
      then show ?thesis using a b assms(4) by simp
    qed
  qed
qed

lemma paragraph_candidates_strict:
  "sorted_wrt (<) (map index (paragraph_candidates text))"
proof -
  let ?R = "\<lambda>(j, n) (j', n'). j + n \<le> (j' :: nat)"
  let ?ms = "all_matches paragraphRegex text 0"
  have s: "sorted_wrt ?R ?ms" using consuming_paragraphRegex by (rule all_matches_sorted)
  have "sorted_wrt (\<lambda>x y. index ((\<lambda>(i, n). \<lparr> index = i + n, btype = Paragraph, priority = 100 \<rparr>) x)
                        < index ((\<lambda>(i, n). \<lparr> index = i + n, btype = Paragraph, priority = 100 \<rparr>) y)) ?ms"
  proof (rule sorted_wrt_mono_rel[OF _ s])
    fix x y assume x: "x \<in> set ?ms" and y: "y \<in> set ?ms" and r: "?R x y"
    obtain j n where xx: "x = (j, n)" by (cases x)
    obtain j' n' where yy: "y = (j', n')" by (cases y)
    have "0 < n'" using all_matches_elem[OF consuming_paragraphRegex y[unfolded yy]] by simp
    then show "index ((\<lambda>(i, n). \<lparr> index = i + n, btype = Paragraph, priority = 100 \<rparr>) x)
                        < index ((\<lambda>(i, n). \<lparr> index = i + n, btype = Paragraph, priority = 100 \<rparr>) y)"
      using r by (simp add: xx yy)
  qed
  then show ?thesis by (simp add: paragraph_candidates_def sorted_wrt_map)
qed

lemma paragraph_candidates_all: "b \<in> set (paragraph_candidates text) \<Longrightarrow> btype b = Paragraph"
  by (auto simp: paragraph_candidates_def)

lemma filter_paragraph_found:
  "filter (\<lambda>b. btype b = Paragraph) (sort_key index (paragraph_candidates text @ other_candidates text))
     = paragraph_candidates text"
proof -
  have p: "filter (\<lambda>b. btype b = Paragraph) (paragraph_candidates text) = paragraph_candidates text"
    using paragraph_candidates_all by (simp add: filter_id_conv)
  have o: "filter (\<lambda>b. btype b = Paragraph) (other_candidates text) = []"
    using other_candidates_not_paragraph by (auto simp: filter_empty_conv)
  have "sorted_wrt (\<le>) (map index (paragraph_candidates text))"
    using paragraph_candidates_strict[of "text"] by (rule sorted_wrt_mono_rel[rotated]) simp
  then have s: "sort_key index (paragraph_candidates text) = paragraph_candidates text"
    by (simp add: sort_key_id_if_sorted)
  show ?thesis by (simp add: filter_sort p o s)
qed


lemma para_occ_in_match:
  assumes "para_occ text i e"
  shows "\<exists>j n. (j, n) \<in> set (all_matches paragraphRegex text 0) \<and> j \<le> i \<and> e \<le> j + n"
proof -
  from assms have ie: "i + 2 \<le> e" "e \<le> length text"
    and sp: "para_span (drop i text) (e - i)" by (simp_all add: para_occ_span)
  have "match_alts paragraphRegex (drop i text) \<noteq> None"
    using sp para_match_None by blast
  then obtain j n where jn: "(j, n) \<in> set (all_matches paragraphRegex text 0)"
    and ji: "j \<le> i" and ij: "i < j + n"
    using all_matches_covers[OF consuming_paragraphRegex, of 0 i "text"] ie by auto
  from all_matches_elem[OF consuming_paragraphRegex jn]
  have le: "j + n \<le> length text" and m: "match_alts paragraphRegex (drop j text) = Some n"
    by auto
  have spj: "para_span (drop j text) n" using m by (rule para_match_Some(1))
  have ws_match: "is_ws (text ! k)" if "j \<le> k" "k < j + n" for k
  proof -
    have "k - j < length (take n (drop j text))" using that le by simp
    moreover have "list_all is_ws (take n (drop j text))" using spj by (simp add: para_span_def)
    ultimately have "is_ws (take n (drop j text) ! (k - j))" by (simp add: list_all_length)
    then show ?thesis using that le by simp
  qed
  have ws_occ: "is_ws (text ! k)" if "i \<le> k" "k < e" for k
  proof -
    have "k - i < length (take (e - i) (drop i text))" using that ie by simp
    moreover have "list_all is_ws (take (e - i) (drop i text))" using sp by (simp add: para_span_def)
    ultimately have "is_ws (take (e - i) (drop i text) ! (k - i))" by (simp add: list_all_length)
    then show ?thesis using that ie by simp
  qed
  have all_ws: "list_all is_ws (take (e - j) (drop j text))"
    unfolding list_all_length
  proof (intro allI impI)
    fix k assume k: "k < length (take (e - j) (drop j text))"
    then have kk: "k < e - j" "j + k < length text" by auto
    have "is_ws (text ! (j + k))"
    proof (cases "j + k < i")
      case True
      then show ?thesis using ws_match[of "j + k"] ij by simp
    next
      case False
      then show ?thesis using ws_occ[of "j + k"] kk by simp
    qed
    then show "is_ws (take (e - j) (drop j text) ! k)" using kk by simp
  qed
  have first: "drop j text ! 0 = 10" using spj by (simp add: para_span_def)
  have "e - j - 1 + j = e - 1" using ji ie by arith
  then have lst: "drop j text ! (e - j - 1) = 10"
    using assms ie ji by (simp add: para_occ_def add.commute)
  have bnd: "2 \<le> e - j" "e - j \<le> length (drop j text)" using ie ji by simp_all
  have "para_span (drop j text) (e - j)"
    unfolding para_span_def using bnd first lst all_ws by blast
  then have "e - j \<le> n" using m by (rule para_match_Some(2)[rotated])
  then have "e \<le> j + n" by arith
  then show ?thesis using jn ji by blast
qed

lemma match_para_occ:
  assumes "(j, n) \<in> set (all_matches paragraphRegex text 0)"
  shows "para_occ text j (j + n)"
proof -
  from all_matches_elem[OF consuming_paragraphRegex assms]
  have le: "j + n \<le> length text" and m: "match_alts paragraphRegex (drop j text) = Some n"
    by auto
  have sp: "para_span (drop j text) n" using m by (rule para_match_Some(1))
  then have "2 \<le> n" by (simp add: para_span_def)
  then show ?thesis using sp le by (simp add: para_occ_span)
qed

lemma match_max_para_occ:
  assumes "(j, n) \<in> set (all_matches paragraphRegex text 0)"
  shows "max_para_occ text j (j + n)"
proof -
  have occ: "para_occ text j (j + n)" using assms by (rule match_para_occ)
  have mx: "i' = j \<and> e' = j + n" if o: "para_occ text i' e'" and l: "i' \<le> j" and r: "j + n \<le> e'"
    for i' e'
  proof -
    from para_occ_in_match[OF o] obtain j0 n0
      where in0: "(j0, n0) \<in> set (all_matches paragraphRegex text 0)"
        and a: "j0 \<le> i'" and b: "e' \<le> j0 + n0" by blast
    have pos: "0 < n" using all_matches_elem[OF consuming_paragraphRegex assms] by simp
    have "\<not> j0 < j"
    proof
      assume "j0 < j"
      then have "j0 + n0 \<le> j"
        using all_matches_disjoint[OF consuming_paragraphRegex in0 assms] by simp
      then show False using b r pos by arith
    qed
    then have j0: "j0 = j" using a l by arith
    have "match_alts paragraphRegex (drop j text) = Some n"
      using all_matches_elem[OF consuming_paragraphRegex assms] by simp
    moreover have "match_alts paragraphRegex (drop j text) = Some n0"
      using all_matches_elem[OF consuming_paragraphRegex in0] j0 by simp
    ultimately have "n0 = n" by simp
    then show ?thesis using j0 a b l r by arith
  qed
  show ?thesis unfolding max_para_occ_def using occ mx by auto
qed

lemma max_para_occ_match:
  assumes "max_para_occ text i e"
  shows "\<exists>n. (i, n) \<in> set (all_matches paragraphRegex text 0) \<and> e = i + n"
proof -
  have o: "para_occ text i e" using assms by (simp add: max_para_occ_def)
  from para_occ_in_match[OF o] obtain j n
    where jn: "(j, n) \<in> set (all_matches paragraphRegex text 0)"
      and a: "j \<le> i" and b: "e \<le> j + n" by blast
  have oj: "para_occ text j (j + n)" using jn by (rule match_para_occ)
  then have "j + n \<le> length text" by (simp add: para_occ_def)
  then have "j = i \<and> j + n = e"
    using assms oj a b unfolding max_para_occ_def by auto
  then show ?thesis using jn by auto
qed

lemma max_para_ends_set:
  "set (max_para_ends text) = {e. \<exists>i. max_para_occ text i e}"
proof -
  have "e \<le> length text \<and> i \<le> e" if "max_para_occ text i e" for i e
    using that by (simp add: max_para_occ_def para_occ_def)
  then show ?thesis
    by (auto simp del: upt_Suc simp add: max_para_ends_def less_Suc_eq_le)
qed

lemma match_ends_closed:
  "map (\<lambda>(j, n). j + n) (all_matches paragraphRegex text 0) = max_para_ends text"
proof (rule sorted_distinct_set_unique)
  have "sorted_wrt (<) (map index (paragraph_candidates text))"
    by (rule paragraph_candidates_strict)
  moreover have "map index (paragraph_candidates text)
      = map (\<lambda>(j, n). j + n) (all_matches paragraphRegex text 0)"
    by (simp add: paragraph_candidates_def case_prod_beta)
  ultimately have "sorted_wrt (<) (map (\<lambda>(j, n). j + n) (all_matches paragraphRegex text 0))"
    by simp
  then show "sorted (map (\<lambda>(j, n). j + n) (all_matches paragraphRegex text 0))"
    and "distinct (map (\<lambda>(j, n). j + n) (all_matches paragraphRegex text 0))"
    by (simp_all add: strict_sorted_iff)
  show "sorted (max_para_ends text)"
    unfolding max_para_ends_def by (rule sorted_wrt_filter) (rule sorted_upt)
  show "distinct (max_para_ends text)"
    unfolding max_para_ends_def by (rule distinct_filter) (rule distinct_upt)
  show "set (map (\<lambda>(j, n). j + n) (all_matches paragraphRegex text 0)) = set (max_para_ends text)"
    unfolding max_para_ends_set
    using match_max_para_occ[of _ _ "text"] max_para_occ_match[of "text"] by force
qed

lemma paragraph_candidates_closed:
  "paragraph_candidates text
     = map (\<lambda>e. \<lparr> index = e, btype = Paragraph, priority = 100 \<rparr>) (max_para_ends text)"
proof -
  have "paragraph_candidates text
     = map (\<lambda>e. \<lparr> index = e, btype = Paragraph, priority = 100 \<rparr>)
         (map (\<lambda>(j, n). j + n) (all_matches paragraphRegex text 0))"
    by (simp add: paragraph_candidates_def case_prod_beta)
  then show ?thesis by (simp only: match_ends_closed)
qed

text \<open>
  C7 (amended): findTextBoundaries returns the pushed candidates of every kind sorted
  ascending by offset, none dropped or merged (equal as multisets, and candidates of one
  offset in the order they were pushed). Its paragraph boundaries are exactly these: one
  boundary of priority 100 at the offset just after each maximal span that is a line feed, a
  run of whitespace and a line feed (a maximal run of one or more blank lines, with the line
  feed before it), in ascending order, and no other.
\<close>

theorem findTextBoundaries_paragraphs:
  "\<exists>pushed found.
     pushed_boundaries text = Some pushed \<and> findTextBoundaries text = Some found \<and>
     sorted (map index found) \<and> mset found = mset pushed \<and>
     (\<forall>k. filter (\<lambda>b. index b = k) found = filter (\<lambda>b. index b = k) pushed) \<and>
     filter (\<lambda>b. btype b = Paragraph) found
       = map (\<lambda>e. \<lparr> index = e, btype = Paragraph, priority = 100 \<rparr>) (max_para_ends text)"
proof -
  let ?pushed = "paragraph_candidates text @ other_candidates text"
  let ?found = "sort_key index ?pushed"
  have 1: "pushed_boundaries text = Some ?pushed" by (rule pushed_boundaries_closed)
  have 2: "findTextBoundaries text = Some ?found" by (rule findTextBoundaries_closed)
  have 3: "sorted (map index ?found)" by (rule sorted_sort_key)
  have 4: "mset ?found = mset ?pushed" by (rule mset_sort)
  have 5: "filter (\<lambda>b. index b = k) ?found = filter (\<lambda>b. index b = k) ?pushed" for k
    by (rule sort_key_stable)
  have 6: "filter (\<lambda>b. btype b = Paragraph) ?found
       = map (\<lambda>e. \<lparr> index = e, btype = Paragraph, priority = 100 \<rparr>) (max_para_ends text)"
    by (simp only: filter_paragraph_found) (rule paragraph_candidates_closed)
  show ?thesis
    using 1 2 3 4 5 6 by (intro exI[of _ ?pushed] exI[of _ ?found]) blast
qed

lemma sample_fence_eval:
  "findTextBoundaries sample_fence =
     Some [\<lparr> index = 2, btype = Paragraph, priority = 100 \<rparr>,
           \<lparr> index = 2, btype = CodeBlock, priority = 85 \<rparr>,
           \<lparr> index = 9, btype = CodeBlock, priority = 85 \<rparr>]"
  by code_simp

lemma two_blank_lines_eval:
  "findTextBoundaries [97, 10, 10, 10, 98]
     = Some [\<lparr> index = 4, btype = Paragraph, priority = 100 \<rparr>]"
  by code_simp

theorem findTextBoundaries_paragraphs_witness:
  "findTextBoundaries [97, 10, 10, 10, 98]
     = Some [\<lparr> index = 4, btype = Paragraph, priority = 100 \<rparr>]
   \<and> max_para_ends [97, 10, 10, 10, 98] = [4]
   \<and> findTextBoundaries sample_fence =
       Some [\<lparr> index = 2, btype = Paragraph, priority = 100 \<rparr>,
             \<lparr> index = 2, btype = CodeBlock, priority = 85 \<rparr>,
             \<lparr> index = 9, btype = CodeBlock, priority = 85 \<rparr>]
   \<and> max_para_ends sample_fence = [2]"
proof -
  from findTextBoundaries_paragraphs[of "[97, 10, 10, 10, 98]"]
  obtain found where f: "findTextBoundaries [97, 10, 10, 10, 98] = Some found"
    and e: "filter (\<lambda>b. btype b = Paragraph) found
       = map (\<lambda>e. \<lparr> index = e, btype = Paragraph, priority = 100 \<rparr>)
           (max_para_ends [97, 10, 10, 10, 98])"
    by blast
  have "found = [\<lparr> index = 4, btype = Paragraph, priority = 100 \<rparr>]"
    using f two_blank_lines_eval by simp
  then have "[\<lparr> index = 4, btype = Paragraph, priority = 100 \<rparr>]
       = map (\<lambda>e. \<lparr> index = e, btype = Paragraph, priority = 100 \<rparr>)
           (max_para_ends [97, 10, 10, 10, 98])"
    using e by simp
  then have a: "max_para_ends [97, 10, 10, 10, 98] = [4]"
    by (simp add: Cons_eq_map_conv)
  from findTextBoundaries_paragraphs[of sample_fence]
  obtain found' where f': "findTextBoundaries sample_fence = Some found'"
    and e': "filter (\<lambda>b. btype b = Paragraph) found'
       = map (\<lambda>e. \<lparr> index = e, btype = Paragraph, priority = 100 \<rparr>)
           (max_para_ends sample_fence)"
    by blast
  have "found' = [\<lparr> index = 2, btype = Paragraph, priority = 100 \<rparr>,
           \<lparr> index = 2, btype = CodeBlock, priority = 85 \<rparr>,
           \<lparr> index = 9, btype = CodeBlock, priority = 85 \<rparr>]"
    using f' sample_fence_eval by simp
  then have "[\<lparr> index = 2, btype = Paragraph, priority = 100 \<rparr>]
       = map (\<lambda>e. \<lparr> index = e, btype = Paragraph, priority = 100 \<rparr>)
           (max_para_ends sample_fence)"
    using e' by simp
  then have b: "max_para_ends sample_fence = [2]"
    by (simp add: Cons_eq_map_conv)
  show ?thesis using a b two_blank_lines_eval sample_fence_eval by simp
qed

lemma single_blank_line_eval:
  "findTextBoundaries [97, 10, 10, 98] = Some [\<lparr> index = 3, btype = Paragraph, priority = 100 \<rparr>]"
  by code_simp

lemma spaced_blank_line_eval:
  "findTextBoundaries [97, 10, 32, 10, 98] = Some [\<lparr> index = 4, btype = Paragraph, priority = 100 \<rparr>]"
  by code_simp

text \<open>
  C7 as stated asks for two or more consecutive blank lines. The text \<open>"a\n\nb"\<close> has the
  lines \<open>"a"\<close>, \<open>""\<close> and \<open>"b"\<close>, of which one is blank, and a paragraph boundary is
  reported at offset 3. Likewise \<open>"a\n \nb"\<close>, whose two line feeds are not even adjacent,
  has the one blank line \<open>" "\<close> and a paragraph boundary at offset 4.
\<close>

theorem findTextBoundaries_one_blank_line_counterexample:
  "findTextBoundaries [97, 10, 10, 98] = Some [\<lparr> index = 3, btype = Paragraph, priority = 100 \<rparr>]
   \<and> split_lines [97, 10, 10, 98] = [[97], [], [98]]
   \<and> map blank_line [[97], [], [98]] = [False, True, False]
   \<and> findTextBoundaries [97, 10, 32, 10, 98]
       = Some [\<lparr> index = 4, btype = Paragraph, priority = 100 \<rparr>]
   \<and> split_lines [97, 10, 32, 10, 98] = [[97], [32], [98]]
   \<and> map blank_line [[97], [32], [98]] = [False, True, False]"
  using single_blank_line_eval spaced_blank_line_eval by (simp add: blank_line_def is_ws_def)

end
